theory Spec2Isabelle
  imports Main "HOL-Library.AList" "HOL-Library.Char_ord" "HOL-Library.List_Lexorder"
begin

section \<open>JavaScript values used as node identifiers\<close>

text \<open>
  The graph class accepts any JavaScript value where an identifier is expected and
  checks its kind with \<^verbatim>\<open>typeof\<close>.
  \<^item> \<open>Num i\<close> is the number whose value is the integer \<open>i\<close>, the spec's integral
    identifiers. It is read as a JavaScript number for the safe integers
    (\<open>\<bar>i\<bar> < 2^53\<close>), which are all numbers and which a template literal prints in
    plain decimal; beyond them not every integer is a number, and from \<open>10^21\<close> the
    printed form is an exponent form.
  \<^item> \<open>NaN\<close>, \<open>Infinity\<close> and \<open>NegInfinity\<close> are numbers that are not integral:
    \<^verbatim>\<open>typeof\<close> is \<^verbatim>\<open>'number'\<close> for them as well. Numbers with a fractional part
    take the same path through every method; they are left out because their printed
    form (the shortest decimal that reads back) is not modelled.
  \<^item> \<open>Str s\<close> is a string of 8-bit characters, ordered by character code as
    \<^verbatim>\<open>sort\<close> orders code units.
  \<^item> \<open>Bool\<close>, \<open>Null\<close> and \<open>Undefined\<close> are values of kinds that
    \<^verbatim>\<open>_checkValidId\<close> refuses.

  Equality of the datatype is the SameValueZero comparison that \<^verbatim>\<open>Map\<close> and
  \<^verbatim>\<open>Set\<close> use on these values (\<open>NaN\<close> is equal to itself there).
\<close>

datatype jsval =
    Num int | NaN | Infinity | NegInfinity
  | Str string
  | Bool bool | Null | Undefined

fun typeof :: "jsval \<Rightarrow> string" where
  "typeof (Num i) = ''number''"
| "typeof NaN = ''number''"
| "typeof Infinity = ''number''"
| "typeof NegInfinity = ''number''"
| "typeof (Str s) = ''string''"
| "typeof (Bool b) = ''boolean''"
| "typeof Null = ''object''"
| "typeof Undefined = ''undefined''"

text \<open>Decimal rendering of an integer, as \<^verbatim>\<open>`${id}`\<close> prints a number.\<close>

definition digit_char :: "nat \<Rightarrow> char" where
  "digit_char d = ''0123456789'' ! d"

fun nat_digits :: "nat \<Rightarrow> string" where
  "nat_digits n =
     (if n < 10 then [digit_char n] else nat_digits (n div 10) @ [digit_char (n mod 10)])"

declare nat_digits.simps [simp del]

definition number_to_string :: "int \<Rightarrow> string" where
  "number_to_string i =
     (if i < 0 then CHR ''-'' # nat_digits (nat (- i)) else nat_digits (nat i))"

fun to_string :: "jsval \<Rightarrow> string" where
  "to_string (Num i) = number_to_string i"
| "to_string NaN = ''NaN''"
| "to_string Infinity = ''Infinity''"
| "to_string NegInfinity = ''-Infinity''"
| "to_string (Str s) = s"
| "to_string (Bool b) = (if b then ''true'' else ''false'')"
| "to_string Null = ''null''"
| "to_string Undefined = ''undefined''"

text \<open>
  \<^verbatim>\<open>Number(s)\<close> on a string. An optionally signed run of decimal digits that
  spells a safe integer is that integer; the three printed forms of the numbers that
  are not integral read back as those numbers. What JavaScript returns for every other
  string (a longer run of digits, which it rounds; a fraction, an exponent form, a
  hexadecimal literal, blanks around a number; \<^verbatim>\<open>NaN\<close> for the rest) is left to the
  parameter \<open>other\<close>.
\<close>

definition is_digit :: "char \<Rightarrow> bool" where
  "is_digit c = (c \<in> set ''0123456789'')"

definition digit_val :: "char \<Rightarrow> nat" where
  "digit_val c = of_char c - 48"

definition parse_nat :: "string \<Rightarrow> nat" where
  "parse_nat ds = foldl (\<lambda>acc c. 10 * acc + digit_val c) 0 ds"

definition all_digits :: "string \<Rightarrow> bool" where
  "all_digits ds = (ds \<noteq> [] \<and> list_all is_digit ds)"

fun string_to_int :: "string \<Rightarrow> int option" where
  "string_to_int [] = None"
| "string_to_int (c # cs) =
     (if c = CHR ''-'' then (if all_digits cs then Some (- int (parse_nat cs)) else None)
      else if c = CHR ''+'' then (if all_digits cs then Some (int (parse_nat cs)) else None)
      else if all_digits (c # cs) then Some (int (parse_nat (c # cs))) else None)"

definition is_safe_integer :: "int \<Rightarrow> bool" where
  "is_safe_integer i = (\<bar>i\<bar> \<le> 9007199254740991)"

definition Number :: "(string \<Rightarrow> jsval) \<Rightarrow> string \<Rightarrow> jsval" where
  "Number other s =
     (case string_to_int s of
        Some i \<Rightarrow> if is_safe_integer i then Num i else other s
      | None \<Rightarrow>
          if s = ''Infinity'' \<or> s = ''+Infinity'' then Infinity
          else if s = ''-Infinity'' then NegInfinity
          else if s = ''NaN'' then NaN
          else other s)"

section \<open>Map and Set\<close>

text \<open>
  A JavaScript \<^verbatim>\<open>Map\<close> keeps its entries in insertion order: an association list.
  \<^verbatim>\<open>set\<close> on a present key replaces the value in place, on a new key appends;
  \<^verbatim>\<open>delete\<close> removes the entry; \<^verbatim>\<open>get\<close> on a missing key is \<^verbatim>\<open>undefined\<close>
  (\<open>None\<close>). A \<^verbatim>\<open>Set\<close> is the list of its elements in insertion order.
\<close>

definition Map_has :: "'k \<Rightarrow> ('k \<times> 'a) list \<Rightarrow> bool" where
  "Map_has k m = (k \<in> set (map fst m))"

definition Map_get :: "'k \<Rightarrow> ('k \<times> 'a) list \<Rightarrow> 'a option" where
  "Map_get k m = map_of m k"

definition Map_set :: "'k \<Rightarrow> 'a \<Rightarrow> ('k \<times> 'a) list \<Rightarrow> ('k \<times> 'a) list" where
  "Map_set k v m = AList.update k v m"

definition Map_delete :: "'k \<Rightarrow> ('k \<times> 'a) list \<Rightarrow> ('k \<times> 'a) list" where
  "Map_delete k m = AList.delete k m"

definition Map_keys :: "('k \<times> 'a) list \<Rightarrow> 'k list" where
  "Map_keys m = map fst m"

definition Set_has :: "'a \<Rightarrow> 'a list \<Rightarrow> bool" where
  "Set_has x s = (x \<in> set s)"

definition Set_add :: "'a \<Rightarrow> 'a list \<Rightarrow> 'a list" where
  "Set_add x s = (if x \<in> set s then s else s @ [x])"

definition Set_delete :: "'a \<Rightarrow> 'a list \<Rightarrow> 'a list" where
  "Set_delete x s = removeAll x s"

section \<open>The Graph class\<close>

text \<open>
  A stored attribute record is a plain object; \<open>'v attrs\<close> is the map of its own
  fields, by name.
\<close>

type_synonym 'v attrs = "string \<rightharpoonup> 'v"

text \<open>
  The \<^verbatim>\<open>attr\<close> argument is the caller's object. The class only ever reads its own
  enumerable fields, one after the other, and reading a field can run the caller's code
  (a getter), which can throw. \<open>Record a\<close> is an argument whose fields are all read,
  giving \<open>a\<close> (the default \<^verbatim>\<open>{}\<close> is \<open>Record Map.empty\<close>); \<open>Throwing p\<close> is one
  whose fields \<open>p\<close> are read and whose next field throws.
\<close>

datatype 'v attr_arg = Record "'v attrs" | Throwing "'v attrs"

record 'v graph =
  adj :: "(jsval \<times> jsval list) list"
  nodesData :: "(jsval \<times> 'v attrs) list"
  edgesData :: "(string \<times> 'v attrs) list"

text \<open>
  The class throws \<^verbatim>\<open>Error\<close> with a message; the constructors follow the spec's
  error kinds and carry the identifiers of the message. \<open>TypeError\<close> is what the
  runtime throws when a method is called on the \<^verbatim>\<open>undefined\<close> that \<^verbatim>\<open>Map.get\<close>
  returned for a missing key. \<open>Thrown\<close> is whatever the caller's \<^verbatim>\<open>attr\<close> object
  throws while its fields are read.
\<close>

datatype error =
    InvalidIdentifier jsval
  | DuplicateNode jsval
  | NodeNotFound jsval
  | EdgeNotFound jsval jsval
  | TypeError
  | Thrown

text \<open>
  \<^verbatim>\<open>{ ...attr }\<close> builds a new record from the fields of \<^verbatim>\<open>attr\<close>, every field
  as an own field of the copy; when a field throws there is no copy.
\<close>

definition spread :: "'v attr_arg \<Rightarrow> error + 'v attrs" where
  "spread attr = (case attr of Record a \<Rightarrow> Inr a | Throwing p \<Rightarrow> Inl Thrown)"

text \<open>
  \<^verbatim>\<open>Object.assign(target, attr)\<close> assigns the fields of \<^verbatim>\<open>attr\<close> to \<open>target\<close>
  one after the other, so the fields read before one that throws are already assigned
  when it throws. Assigning a field sets the own field of that name, with one exception:
  the name \<^verbatim>\<open>__proto__\<close>, when \<open>target\<close> has no own field of that name, reaches
  the setter that every plain object inherits, and no field is made. (That setter
  replaces the prototype of \<open>target\<close> when the value is an object or \<^verbatim>\<open>null\<close>; the
  prototype is not among the fields, and a record whose prototype was replaced is
  outside this model.)
\<close>

definition assign_fields :: "'v attrs \<Rightarrow> 'v attrs \<Rightarrow> 'v attrs" where
  "assign_fields target a =
     (\<lambda>k. if k = ''__proto__'' \<and> target k = None then None else (target ++ a) k)"

definition Object_assign :: "'v attrs \<Rightarrow> 'v attr_arg \<Rightarrow> (error + unit) \<times> 'v attrs" where
  "Object_assign target attr =
     (case attr of
        Record a \<Rightarrow> (Inr (), assign_fields target a)
      | Throwing p \<Rightarrow> (Inl Thrown, assign_fields target p))"

definition new_Graph :: "'v graph" where
  "new_Graph = \<lparr>adj = [], nodesData = [], edgesData = []\<rparr>"

definition checkValidId :: "jsval \<Rightarrow> error + unit" where
  "checkValidId ident =
     (let t = typeof ident
      in if t \<noteq> ''string'' \<and> t \<noteq> ''number'' then Inl (InvalidIdentifier ident) else Inr ())"

definition typedId :: "jsval \<Rightarrow> string" where
  "typedId ident =
     (if typeof ident = ''number'' then ''n:'' @ to_string ident else ''s:'' @ to_string ident)"

text \<open>\<^verbatim>\<open>[keyU, keyV].sort()\<close>: the default order of strings, on two elements.\<close>

definition sort2 :: "string \<Rightarrow> string \<Rightarrow> string list" where
  "sort2 a b = (if b < a then [b, a] else [a, b])"

definition edgeKey :: "jsval \<Rightarrow> jsval \<Rightarrow> string" where
  "edgeKey u v =
     (let keyU = typedId u; keyV = typedId v; sorted = sort2 keyU keyV
      in sorted ! 0 @ ''|'' @ sorted ! 1)"

text \<open>
  \<open>addNode\<close> writes the empty neighbour set first and copies \<^verbatim>\<open>attr\<close> after: when
  the copy throws, the node is already in \<open>adj\<close>.
\<close>

definition addNode :: "jsval \<Rightarrow> 'v attr_arg \<Rightarrow> 'v graph \<Rightarrow> (error + unit) \<times> 'v graph" where
  "addNode ident attr g =
     (case checkValidId ident of
        Inl e \<Rightarrow> (Inl e, g)
      | Inr _ \<Rightarrow>
          if Map_has ident (adj g) then (Inl (DuplicateNode ident), g)
          else
            let g1 = g\<lparr>adj := Map_set ident [] (adj g)\<rparr> in
            (case spread attr of
               Inl e \<Rightarrow> (Inl e, g1)
             | Inr a \<Rightarrow> (Inr (), g1\<lparr>nodesData := Map_set ident a (nodesData g1)\<rparr>)))"

text \<open>
  An item of \<^verbatim>\<open>addNodesFrom\<close> is an array \<^verbatim>\<open>[nid, attr]\<close>, whose missing second
  component defaults to the empty record, or a bare value.
\<close>

datatype 'v item = Bare jsval | Tuple jsval "'v attr_arg option"

fun addNode_item :: "'v item \<Rightarrow> 'v graph \<Rightarrow> (error + unit) \<times> 'v graph" where
  "addNode_item (Tuple nid attr) g =
     addNode nid (case attr of None \<Rightarrow> Record Map.empty | Some a \<Rightarrow> a) g"
| "addNode_item (Bare ident) g = addNode ident (Record Map.empty) g"

fun addNodesFrom :: "'v item list \<Rightarrow> 'v graph \<Rightarrow> (error + unit) \<times> 'v graph" where
  "addNodesFrom [] g = (Inr (), g)"
| "addNodesFrom (it # rest) g =
     (case addNode_item it g of
        (Inl e, g') \<Rightarrow> (Inl e, g')
      | (Inr _, g') \<Rightarrow> addNodesFrom rest g')"

definition hasNode :: "jsval \<Rightarrow> 'v graph \<Rightarrow> bool" where
  "hasNode ident g = Map_has ident (adj g)"

definition node :: "jsval \<Rightarrow> 'v graph \<Rightarrow> error + 'v attrs option" where
  "node ident g =
     (if \<not> Map_has ident (adj g) then Inl (NodeNotFound ident)
      else Inr (Map_get ident (nodesData g)))"

text \<open>
  The loop of \<^verbatim>\<open>removeNode\<close> over the neighbours of \<open>ident\<close>. The only element the
  body can delete from the set it iterates is the current one (when \<open>nbr = ident\<close>, a
  self-loop), and a \<^verbatim>\<open>Set\<close> iterator carries on with the next element then: the loop
  visits the neighbours that the set held at the call.
\<close>

fun removeNode_loop :: "jsval \<Rightarrow> jsval list \<Rightarrow> 'v graph \<Rightarrow> (error + unit) \<times> 'v graph" where
  "removeNode_loop ident [] g = (Inr (), g)"
| "removeNode_loop ident (nbr # rest) g =
     (case Map_get nbr (adj g) of
        None \<Rightarrow> (Inl TypeError, g)
      | Some s \<Rightarrow>
          removeNode_loop ident rest
            (g\<lparr>adj := Map_set nbr (Set_delete ident s) (adj g),
               edgesData := Map_delete (edgeKey ident nbr) (edgesData g)\<rparr>))"

definition removeNode :: "jsval \<Rightarrow> 'v graph \<Rightarrow> (error + unit) \<times> 'v graph" where
  "removeNode ident g =
     (if \<not> Map_has ident (adj g) then (Inl (NodeNotFound ident), g)
      else case Map_get ident (adj g) of
        None \<Rightarrow> (Inl TypeError, g)
      | Some nbrs \<Rightarrow>
          (case removeNode_loop ident nbrs g of
             (Inl e, g') \<Rightarrow> (Inl e, g')
           | (Inr _, g') \<Rightarrow>
               (Inr (), g'\<lparr>adj := Map_delete ident (adj g'),
                            nodesData := Map_delete ident (nodesData g')\<rparr>)))"

text \<open>
  \<open>addEdge\<close> writes both neighbour sets first and touches the record after: when
  reading \<^verbatim>\<open>attr\<close> throws, the edge is already in \<open>adj\<close>, with no record if there
  was none and with the fields assigned so far if there was one.
\<close>

definition addEdge ::
  "jsval \<Rightarrow> jsval \<Rightarrow> 'v attr_arg \<Rightarrow> 'v graph \<Rightarrow> (error + unit) \<times> 'v graph"
where
  "addEdge u v attr g =
     (case checkValidId u of
        Inl e \<Rightarrow> (Inl e, g)
      | Inr _ \<Rightarrow>
     (case checkValidId v of
        Inl e \<Rightarrow> (Inl e, g)
      | Inr _ \<Rightarrow>
     if \<not> Map_has u (adj g) then (Inl (NodeNotFound u), g)
     else if \<not> Map_has v (adj g) then (Inl (NodeNotFound v), g)
     else
     (case Map_get u (adj g) of
        None \<Rightarrow> (Inl TypeError, g)
      | Some su \<Rightarrow>
     let g1 = g\<lparr>adj := Map_set u (Set_add v su) (adj g)\<rparr> in
     (case Map_get v (adj g1) of
        None \<Rightarrow> (Inl TypeError, g1)
      | Some sv \<Rightarrow>
     let g2 = g1\<lparr>adj := Map_set v (Set_add u sv) (adj g1)\<rparr>;
         ek = edgeKey u v in
     if \<not> Map_has ek (edgesData g2)
     then
       (case spread attr of
          Inl e \<Rightarrow> (Inl e, g2)
        | Inr a \<Rightarrow> (Inr (), g2\<lparr>edgesData := Map_set ek a (edgesData g2)\<rparr>))
     else
     (case Map_get ek (edgesData g2) of
        None \<Rightarrow> (Inl TypeError, g2)
      | Some old \<Rightarrow>
          (case Object_assign old attr of
             (r, new) \<Rightarrow> (r, g2\<lparr>edgesData := Map_set ek new (edgesData g2)\<rparr>)))))))"

definition hasEdge :: "jsval \<Rightarrow> jsval \<Rightarrow> 'v graph \<Rightarrow> error + bool" where
  "hasEdge u v g =
     (if \<not> Map_has u (adj g) then Inr False
      else case Map_get u (adj g) of
        None \<Rightarrow> Inl TypeError
      | Some s \<Rightarrow> Inr (Set_has v s))"

definition edge :: "jsval \<Rightarrow> jsval \<Rightarrow> 'v graph \<Rightarrow> error + 'v attrs option" where
  "edge u v g =
     (case hasEdge u v g of
        Inl e \<Rightarrow> Inl e
      | Inr b \<Rightarrow>
          if \<not> b then Inl (EdgeNotFound u v)
          else Inr (Map_get (edgeKey u v) (edgesData g)))"

definition removeEdge :: "jsval \<Rightarrow> jsval \<Rightarrow> 'v graph \<Rightarrow> (error + unit) \<times> 'v graph" where
  "removeEdge u v g =
     (case hasEdge u v g of
        Inl e \<Rightarrow> (Inl e, g)
      | Inr b \<Rightarrow>
     if \<not> b then (Inl (EdgeNotFound u v), g)
     else
     (case Map_get u (adj g) of
        None \<Rightarrow> (Inl TypeError, g)
      | Some su \<Rightarrow>
     let g1 = g\<lparr>adj := Map_set u (Set_delete v su) (adj g)\<rparr> in
     (case Map_get v (adj g1) of
        None \<Rightarrow> (Inl TypeError, g1)
      | Some sv \<Rightarrow>
     let g2 = g1\<lparr>adj := Map_set v (Set_delete u sv) (adj g1)\<rparr> in
     (Inr (), g2\<lparr>edgesData := Map_delete (edgeKey u v) (edgesData g2)\<rparr>))))"

definition neighbors :: "jsval \<Rightarrow> 'v graph \<Rightarrow> error + jsval list" where
  "neighbors ident g =
     (if \<not> Map_has ident (adj g) then Inl (NodeNotFound ident)
      else case Map_get ident (adj g) of
        None \<Rightarrow> Inl TypeError
      | Some s \<Rightarrow> Inr s)"

definition numberOfNodes :: "'v graph \<Rightarrow> nat" where
  "numberOfNodes g = length (adj g)"

definition nodes :: "'v graph \<Rightarrow> jsval list" where
  "nodes g = Map_keys (adj g)"

definition numberOfEdges :: "'v graph \<Rightarrow> nat" where
  "numberOfEdges g = length (edgesData g)"

text \<open>
  \<^verbatim>\<open>key.split('|')\<close> cuts the key at every bar; the destructuring
  \<^verbatim>\<open>[uTyped, vTyped]\<close> takes the first two pieces and drops the rest. With a single
  piece \<open>vTyped\<close> is \<^verbatim>\<open>undefined\<close> and \<^verbatim>\<open>vTyped.startsWith\<close> throws.
  \<open>split\<close> returns at least one piece; the empty case of its inner match is never
  taken.
\<close>

fun split :: "char \<Rightarrow> string \<Rightarrow> string list" where
  "split c [] = [[]]"
| "split c (x # xs) =
     (if x = c then [] # split c xs
      else (case split c xs of [] \<Rightarrow> [[x]] | p # ps \<Rightarrow> (x # p) # ps))"

definition startsWith :: "string \<Rightarrow> string \<Rightarrow> bool" where
  "startsWith s p = (take (length p) s = p)"

definition slice :: "string \<Rightarrow> nat \<Rightarrow> string" where
  "slice s n = drop n s"

definition untyped :: "(string \<Rightarrow> jsval) \<Rightarrow> string \<Rightarrow> jsval" where
  "untyped other t =
     (if startsWith t ''n:'' then Number other (slice t 2) else Str (slice t 2))"

fun edges_loop ::
  "(string \<Rightarrow> jsval) \<Rightarrow> (string \<times> 'v attrs) list \<Rightarrow> error + (jsval \<times> jsval \<times> 'v attrs) list"
where
  "edges_loop other [] = Inr []"
| "edges_loop other ((key, attr) # rest) =
     (case split CHR ''|'' key of
        uTyped # vTyped # _ \<Rightarrow>
          (case edges_loop other rest of
             Inl e \<Rightarrow> Inl e
           | Inr results \<Rightarrow> Inr ((untyped other uTyped, untyped other vTyped, attr) # results))
      | _ \<Rightarrow> Inl TypeError)"

definition edges ::
  "(string \<Rightarrow> jsval) \<Rightarrow> 'v graph \<Rightarrow> error + (jsval \<times> jsval \<times> 'v attrs) list"
where
  "edges other g = edges_loop other (edgesData g)"

section \<open>Reachable states\<close>

text \<open>
  The states a caller can produce: the constructor's empty graph, and the graph left
  behind by any mutating method, whether it returned or threw. (The caller does not
  write to the records that \<open>node\<close> and \<open>edge\<close> hand out.)
\<close>

inductive reachable :: "'v graph \<Rightarrow> bool" where
  r_new: "reachable new_Graph"
| r_addNode: "reachable g \<Longrightarrow> reachable (snd (addNode ident attr g))"
| r_addNodesFrom: "reachable g \<Longrightarrow> reachable (snd (addNodesFrom items g))"
| r_removeNode: "reachable g \<Longrightarrow> reachable (snd (removeNode ident g))"
| r_addEdge: "reachable g \<Longrightarrow> reachable (snd (addEdge u v attr g))"
| r_removeEdge: "reachable g \<Longrightarrow> reachable (snd (removeEdge u v g))"

section \<open>Consistency of the adjacency structure\<close>

text \<open>
  The node set is the key set of \<open>adj\<close>. \<open>adj_consistent\<close>: the keys are distinct
  (a \<^verbatim>\<open>Map\<close> holds a key once), and whenever \<open>v\<close> is in the neighbour set of
  \<open>u\<close>, \<open>v\<close> is a node and \<open>u\<close> is in the neighbour set of \<open>v\<close>.
  \<open>edges_refer\<close>: every key of the edge-record store is the canonical key of a pair
  that is joined in \<open>adj\<close>.
\<close>

definition adj_consistent :: "'v graph \<Rightarrow> bool" where
  "adj_consistent g =
     (distinct (map fst (adj g)) \<and>
      (\<forall>(u, s) \<in> set (adj g). \<forall>v \<in> set s.
         (case Map_get v (adj g) of None \<Rightarrow> False | Some t \<Rightarrow> Set_has u t)))"

definition edges_refer :: "'v graph \<Rightarrow> bool" where
  "edges_refer g =
     (\<forall>k \<in> set (map fst (edgesData g)).
        \<exists>(u, s) \<in> set (adj g). \<exists>v \<in> set s. k = edgeKey u v)"

definition consistent :: "'v graph \<Rightarrow> bool" where
  "consistent g = (adj_consistent g \<and> edges_refer g)"

text \<open>
  The node-attribute store is in step with the adjacency map when both have the same
  keys.
\<close>

definition same_keys :: "'v graph \<Rightarrow> bool" where
  "same_keys g = (set (Map_keys (adj g)) = set (Map_keys (nodesData g)))"

text \<open>Every record of the node-attribute store belongs to a node.\<close>

definition records_within_nodes :: "'v graph \<Rightarrow> bool" where
  "records_within_nodes g = (set (Map_keys (nodesData g)) \<subseteq> set (Map_keys (adj g)))"

text \<open>
  The spec's identifier kinds are integral (\<open>Num\<close>) and textual (\<open>Str\<close>):
  \<open>valid_kind\<close>. The code accepts every number and every string:
  \<open>number_or_string\<close>. \<open>valid_keys\<close>: every node is one that the code accepts.
\<close>

definition valid_kind :: "jsval \<Rightarrow> bool" where
  "valid_kind x = (case x of Num i \<Rightarrow> True | Str s \<Rightarrow> True | _ \<Rightarrow> False)"

definition number_or_string :: "jsval \<Rightarrow> bool" where
  "number_or_string x = (typeof x = ''number'' \<or> typeof x = ''string'')"

definition valid_keys :: "'v graph \<Rightarrow> bool" where
  "valid_keys g = (\<forall>k \<in> set (Map_keys (adj g)). number_or_string k)"

text \<open>The container's own errors, as opposed to what the caller's \<^verbatim>\<open>attr\<close> throws.\<close>

definition own_error :: "error \<Rightarrow> bool" where
  "own_error e =
     (case e of
        InvalidIdentifier x \<Rightarrow> True
      | DuplicateNode x \<Rightarrow> True
      | NodeNotFound x \<Rightarrow> True
      | EdgeNotFound x y \<Rightarrow> True
      | _ \<Rightarrow> False)"

text \<open>
  The identifier and the \<^verbatim>\<open>attr\<close> argument that \<open>addNodesFrom\<close> hands to
  \<open>addNode\<close> for an item.
\<close>

fun item_id :: "'v item \<Rightarrow> jsval" where
  "item_id (Bare ident) = ident"
| "item_id (Tuple nid attr) = nid"

fun item_arg :: "'v item \<Rightarrow> 'v attr_arg" where
  "item_arg (Bare ident) = Record Map.empty"
| "item_arg (Tuple nid attr) = (case attr of None \<Rightarrow> Record Map.empty | Some a \<Rightarrow> a)"

text \<open>
  An identifier that \<^verbatim>\<open>Number\<close> or \<^verbatim>\<open>slice\<close> gives back from its tagged form:
  every string, and every number but the integers that are not safe.
\<close>

definition safe_id :: "jsval \<Rightarrow> bool" where
  "safe_id x = (case x of Num i \<Rightarrow> is_safe_integer i | _ \<Rightarrow> True)"

text \<open>A string without the bar that separates the two halves of a canonical key.\<close>

definition bar_free :: "string \<Rightarrow> bool" where
  "bar_free s = (CHR ''|'' \<notin> set s)"

section \<open>Example graphs\<close>

text \<open>
  The spec's scenario (nodes \<open>1\<close>, \<open>2\<close>, \<open>"A"\<close> and the edge \<open>(1, "A", {weight: 5})\<close>);
  the same with a self-loop at \<open>"A"\<close> and an edge to \<open>2\<close>; a number and the string
  that spells it, each joined to \<open>2\<close>; a graph whose textual identifier contains the
  bar; four nodes of which two pairs have the same canonical key, with the first pair
  joined (\<open>clash_start\<close>), with both joined (\<open>clash_graph\<close>), and with the second
  edge removed again (\<open>orphan_graph\<close>); and the graph left by an \<open>addNode\<close> whose
  \<^verbatim>\<open>attr\<close> throws.
\<close>

definition example_graph :: "int graph" where
  "example_graph =
     snd (addEdge (Num 1) (Str ''A'') (Record [''weight'' \<mapsto> 5])
       (snd (addNodesFrom [Bare (Num 1), Bare (Num 2), Tuple (Str ''A'') None] new_Graph)))"

definition loop_graph :: "int graph" where
  "loop_graph =
     snd (addEdge (Str ''A'') (Num 2) (Record Map.empty)
       (snd (addEdge (Str ''A'') (Str ''A'') (Record [''w'' \<mapsto> 1])
         (snd (addEdge (Num 1) (Str ''A'') (Record [''weight'' \<mapsto> 5])
           (snd (addNodesFrom [Bare (Num 1), Bare (Num 2), Tuple (Str ''A'') None]
              new_Graph)))))))"

definition kinds_graph :: "int graph" where
  "kinds_graph =
     snd (addEdge (Str ''1'') (Num 2) (Record [''t'' \<mapsto> 2])
       (snd (addEdge (Num 1) (Num 2) (Record [''n'' \<mapsto> 1])
         (snd (addNodesFrom [Bare (Num 1), Bare (Str ''1''), Bare (Num 2)] new_Graph)))))"

definition bar_graph :: "int graph" where
  "bar_graph =
     snd (addEdge (Str ''a|b'') (Str ''c'') (Record [''w'' \<mapsto> 1])
       (snd (addNodesFrom [Bare (Str ''a|b''), Bare (Str ''c'')] new_Graph)))"

definition clash_start :: "int graph" where
  "clash_start =
     snd (addEdge (Str ''a|s:b'') (Str ''c'') (Record [''x'' \<mapsto> 1])
       (snd (addNodesFrom
          [Bare (Str ''a|s:b''), Bare (Str ''c''), Bare (Str ''a''), Bare (Str ''b|s:c'')]
          new_Graph)))"

definition clash_graph :: "int graph" where
  "clash_graph = snd (addEdge (Str ''a'') (Str ''b|s:c'') (Record [''y'' \<mapsto> 2]) clash_start)"

definition orphan_graph :: "int graph" where
  "orphan_graph = snd (removeEdge (Str ''a'') (Str ''b|s:c'') clash_graph)"

definition half_added_graph :: "int graph" where
  "half_added_graph = snd (addNode (Num 1) (Throwing Map.empty) new_Graph)"

section \<open>Properties of the Map and Set operations\<close>

lemma Map_has_get: "Map_has k m \<longleftrightarrow> Map_get k m \<noteq> None"
  by (simp add: Map_has_def Map_get_def map_of_eq_None_iff)

lemma Map_get_set [simp]:
  "Map_get k' (Map_set k v m) = (if k' = k then Some v else Map_get k' m)"
  by (simp add: Map_get_def Map_set_def update_conv')

lemma Map_get_delete [simp]:
  "Map_get k' (Map_delete k m) = (if k' = k then None else Map_get k' m)"
  by (simp add: Map_get_def Map_delete_def delete_conv')

lemma keys_Map_set_present:
  "Map_get k m = Some w \<Longrightarrow> map fst (Map_set k v m) = map fst m"
  by (simp add: Map_get_def Map_set_def update_keys map_of_eq_None_iff [symmetric])

lemma keys_Map_set_new:
  "Map_get k m = None \<Longrightarrow> map fst (Map_set k v m) = map fst m @ [k]"
  by (simp add: Map_get_def Map_set_def update_keys map_of_eq_None_iff)

lemma keys_Map_delete: "map fst (Map_delete k m) = removeAll k (map fst m)"
  by (simp add: Map_delete_def delete_keys)

lemma distinct_Map_set: "distinct (map fst m) \<Longrightarrow> distinct (map fst (Map_set k v m))"
  by (simp add: Map_set_def distinct_update)

lemma distinct_Map_delete: "distinct (map fst m) \<Longrightarrow> distinct (map fst (Map_delete k m))"
  by (simp add: Map_delete_def distinct_delete)

lemma Map_in_set: "distinct (map fst m) \<Longrightarrow> (k, v) \<in> set m \<longleftrightarrow> Map_get k m = Some v"
  by (simp add: Map_get_def)

lemma set_Set_add [simp]: "set (Set_add x s) = insert x (set s)"
  by (auto simp: Set_add_def)

lemma set_Set_delete [simp]: "set (Set_delete x s) = set s - {x}"
  by (simp add: Set_delete_def)

section \<open>The canonical key is symmetric\<close>

lemma edgeKey_sym: "edgeKey u v = edgeKey v u"
  by (auto simp: edgeKey_def sort2_def Let_def)

section \<open>The adjacency invariant\<close>

lemma adj_consistent_iff:
  "adj_consistent g \<longleftrightarrow>
     distinct (map fst (adj g)) \<and>
     (\<forall>u s v. Map_get u (adj g) = Some s \<longrightarrow> v \<in> set s \<longrightarrow>
        (\<exists>t. Map_get v (adj g) = Some t \<and> u \<in> set t))"
proof (cases "distinct (map fst (adj g))")
  case False
  then show ?thesis by (simp add: adj_consistent_def)
next
  case True
  have pt: "\<And>u v. (case Map_get v (adj g) of None \<Rightarrow> False | Some t \<Rightarrow> Set_has u t)
      \<longleftrightarrow> (\<exists>t. Map_get v (adj g) = Some t \<and> u \<in> set t)"
    by (simp add: Set_has_def split: option.split)
  have "(\<forall>(u, s) \<in> set (adj g). \<forall>v \<in> set s.
         (case Map_get v (adj g) of None \<Rightarrow> False | Some t \<Rightarrow> Set_has u t))
    \<longleftrightarrow> (\<forall>u s v. Map_get u (adj g) = Some s \<longrightarrow> v \<in> set s \<longrightarrow>
        (\<exists>t. Map_get v (adj g) = Some t \<and> u \<in> set t))"
    unfolding pt using True by (auto simp: Map_in_set [symmetric])
  then show ?thesis using True by (simp add: adj_consistent_def)
qed

lemma edges_refer_iff:
  assumes "distinct (map fst (adj g))"
  shows "edges_refer g \<longleftrightarrow>
     (\<forall>k. Map_has k (edgesData g) \<longrightarrow>
        (\<exists>u s v. Map_get u (adj g) = Some s \<and> v \<in> set s \<and> k = edgeKey u v))"
  unfolding edges_refer_def Map_has_def
  using assms by (simp add: Map_in_set [symmetric] split_beta Bex_def) blast

lemma consistent_iff:
  "consistent g \<longleftrightarrow>
     distinct (map fst (adj g)) \<and>
     (\<forall>u s v. Map_get u (adj g) = Some s \<longrightarrow> v \<in> set s \<longrightarrow>
        (\<exists>t. Map_get v (adj g) = Some t \<and> u \<in> set t)) \<and>
     (\<forall>k. Map_has k (edgesData g) \<longrightarrow>
        (\<exists>u s v. Map_get u (adj g) = Some s \<and> v \<in> set s \<and> k = edgeKey u v))"
  using edges_refer_iff [of g] by (auto simp: consistent_def adj_consistent_iff)

lemma consistent_new: "consistent new_Graph"
  by (simp add: consistent_def adj_consistent_def edges_refer_def new_Graph_def)

subsection \<open>What each method does when it returns\<close>

lemma checkValidId_error: "checkValidId x = Inl e \<Longrightarrow> e = InvalidIdentifier x"
  by (simp add: checkValidId_def Let_def split: if_splits)

lemma addNode_cases:
  "(\<exists>e. addNode ident attr g = (Inl e, g) \<and> own_error e) \<or>
   (Map_get ident (adj g) = None \<and> checkValidId ident = Inr () \<and>
    ((\<exists>a. attr = Record a \<and>
        addNode ident attr g =
          (Inr (), g\<lparr>adj := Map_set ident [] (adj g),
                       nodesData := Map_set ident a (nodesData g)\<rparr>)) \<or>
     (\<exists>p. attr = Throwing p \<and>
        addNode ident attr g = (Inl Thrown, g\<lparr>adj := Map_set ident [] (adj g)\<rparr>))))"
proof (cases "checkValidId ident")
  case (Inl e)
  from checkValidId_error [OF this] Inl show ?thesis
    by (simp add: addNode_def own_error_def)
next
  case (Inr x)
  show ?thesis
  proof (cases "Map_has ident (adj g)")
    case True
    with Inr show ?thesis by (simp add: addNode_def own_error_def)
  next
    case False
    with Inr show ?thesis
      by (cases attr) (simp_all add: addNode_def Map_has_get spread_def Let_def)
  qed
qed

text \<open>
  The neighbour sets after the two writes of \<open>addEdge u v\<close>, from the sets \<open>su\<close> of
  \<open>u\<close> and \<open>sv\<close> of \<open>v\<close> before.
\<close>

lemma addEdge_cases:
  "(\<exists>e. addEdge u v attr g = (Inl e, g) \<and> own_error e) \<or>
   (\<exists>su sv. Map_get u (adj g) = Some su \<and> Map_get v (adj g) = Some sv \<and>
      checkValidId u = Inr () \<and> checkValidId v = Inr () \<and>
      (case Map_get (edgeKey u v) (edgesData g) of
         None \<Rightarrow>
           (case attr of
              Record a \<Rightarrow>
                addEdge u v attr g =
                  (Inr (), g\<lparr>adj := Map_set v (Set_add u (if v = u then Set_add v su else sv))
                                      (Map_set u (Set_add v su) (adj g)),
                               edgesData := Map_set (edgeKey u v) a (edgesData g)\<rparr>)
            | Throwing p \<Rightarrow>
                addEdge u v attr g =
                  (Inl Thrown, g\<lparr>adj := Map_set v (Set_add u (if v = u then Set_add v su else sv))
                                      (Map_set u (Set_add v su) (adj g))\<rparr>))
       | Some old \<Rightarrow>
           addEdge u v attr g =
             (fst (Object_assign old attr),
              g\<lparr>adj := Map_set v (Set_add u (if v = u then Set_add v su else sv))
                          (Map_set u (Set_add v su) (adj g)),
                edgesData := Map_set (edgeKey u v) (snd (Object_assign old attr))
                          (edgesData g)\<rparr>)))"
proof (cases "checkValidId u")
  case (Inl e)
  from checkValidId_error [OF this] Inl show ?thesis
    by (simp add: addEdge_def own_error_def)
next
  case u: (Inr x)
  show ?thesis
  proof (cases "checkValidId v")
    case (Inl e)
    from checkValidId_error [OF this] Inl u show ?thesis
      by (simp add: addEdge_def own_error_def)
  next
    case v: (Inr y)
    show ?thesis
    proof (cases "Map_has u (adj g) \<and> Map_has v (adj g)")
      case False
      with u v show ?thesis by (auto simp: addEdge_def own_error_def)
    next
      case True
      then obtain su sv where s: "Map_get u (adj g) = Some su" "Map_get v (adj g) = Some sv"
        by (auto simp: Map_has_get)
      show ?thesis
      proof (cases "Map_get (edgeKey u v) (edgesData g)")
        case None
        with u v True s show ?thesis
          by (cases attr)
             (auto simp: addEdge_def Let_def Map_has_get spread_def)
      next
        case (Some old)
        with u v True s show ?thesis
          by (cases "Object_assign old attr")
             (auto simp: addEdge_def Let_def Map_has_get)
      qed
    qed
  qed
qed

lemma addEdge_adj:
  "snd (addEdge u v attr g) = g \<or>
   (\<exists>su sv. Map_get u (adj g) = Some su \<and> Map_get v (adj g) = Some sv \<and>
      checkValidId u = Inr () \<and> checkValidId v = Inr () \<and>
      adj (snd (addEdge u v attr g)) =
        Map_set v (Set_add u (if v = u then Set_add v su else sv))
          (Map_set u (Set_add v su) (adj g)) \<and>
      nodesData (snd (addEdge u v attr g)) = nodesData g \<and>
      (edgesData (snd (addEdge u v attr g)) = edgesData g \<or>
       (\<exists>r. edgesData (snd (addEdge u v attr g)) = Map_set (edgeKey u v) r (edgesData g))))"
proof -
  from addEdge_cases [of u v attr g] show ?thesis
  proof (elim disjE exE conjE)
    fix e assume "addEdge u v attr g = (Inl e, g)"
    then show ?thesis by simp
  next
    fix su sv
    assume s: "Map_get u (adj g) = Some su" "Map_get v (adj g) = Some sv"
      "checkValidId u = Inr ()" "checkValidId v = Inr ()"
      and c: "case Map_get (edgeKey u v) (edgesData g) of
         None \<Rightarrow>
           (case attr of
              Record a \<Rightarrow>
                addEdge u v attr g =
                  (Inr (), g\<lparr>adj := Map_set v (Set_add u (if v = u then Set_add v su else sv))
                                      (Map_set u (Set_add v su) (adj g)),
                               edgesData := Map_set (edgeKey u v) a (edgesData g)\<rparr>)
            | Throwing p \<Rightarrow>
                addEdge u v attr g =
                  (Inl Thrown, g\<lparr>adj := Map_set v (Set_add u (if v = u then Set_add v su else sv))
                                      (Map_set u (Set_add v su) (adj g))\<rparr>))
       | Some old \<Rightarrow>
           addEdge u v attr g =
             (fst (Object_assign old attr),
              g\<lparr>adj := Map_set v (Set_add u (if v = u then Set_add v su else sv))
                          (Map_set u (Set_add v su) (adj g)),
                edgesData := Map_set (edgeKey u v) (snd (Object_assign old attr))
                          (edgesData g)\<rparr>)"
    have "adj (snd (addEdge u v attr g)) =
        Map_set v (Set_add u (if v = u then Set_add v su else sv))
          (Map_set u (Set_add v su) (adj g)) \<and>
      nodesData (snd (addEdge u v attr g)) = nodesData g \<and>
      (edgesData (snd (addEdge u v attr g)) = edgesData g \<or>
       (\<exists>r. edgesData (snd (addEdge u v attr g)) = Map_set (edgeKey u v) r (edgesData g)))"
      using c by (cases "Map_get (edgeKey u v) (edgesData g)"; cases attr) auto
    with s show ?thesis by blast
  qed
qed

lemma addNode_adj:
  "snd (addNode ident attr g) = g \<or>
   (Map_get ident (adj g) = None \<and> checkValidId ident = Inr () \<and>
    adj (snd (addNode ident attr g)) = Map_set ident [] (adj g) \<and>
    edgesData (snd (addNode ident attr g)) = edgesData g \<and>
    (nodesData (snd (addNode ident attr g)) = nodesData g \<or>
     (\<exists>a. nodesData (snd (addNode ident attr g)) = Map_set ident a (nodesData g))))"
  using addNode_cases [of ident attr g] by auto

lemma consistent_cong:
  "adj g' = adj g \<Longrightarrow> edgesData g' = edgesData g \<Longrightarrow> consistent g' = consistent g"
  by (simp add: consistent_def adj_consistent_def edges_refer_def)

lemma removeNode_loop_ok:
  assumes "\<forall>n \<in> set ns. Map_get n (adj g) \<noteq> None"
  shows "\<exists>g'. removeNode_loop ident ns g = (Inr (), g') \<and>
           nodesData g' = nodesData g \<and>
           map fst (adj g') = map fst (adj g) \<and>
           (\<forall>x. Map_get x (adj g') =
                (if x \<in> set ns then map_option (Set_delete ident) (Map_get x (adj g))
                 else Map_get x (adj g))) \<and>
           edgesData g' = filter (\<lambda>(k, _). k \<notin> edgeKey ident ` set ns) (edgesData g)"
  using assms
proof (induction ns arbitrary: g)
  case Nil
  then show ?case by simp
next
  case (Cons n ns)
  from Cons.prems obtain s where s: "Map_get n (adj g) = Some s" by auto
  let ?g1 = "g\<lparr>adj := Map_set n (Set_delete ident s) (adj g),
               edgesData := Map_delete (edgeKey ident n) (edgesData g)\<rparr>"
  have "\<forall>m \<in> set ns. Map_get m (adj ?g1) \<noteq> None"
    using Cons.prems by simp
  from Cons.IH [OF this] obtain g' where
    run: "removeNode_loop ident ns ?g1 = (Inr (), g')"
    and nd: "nodesData g' = nodesData ?g1"
    and ks: "map fst (adj g') = map fst (adj ?g1)"
    and ad: "\<forall>x. Map_get x (adj g') =
                (if x \<in> set ns then map_option (Set_delete ident) (Map_get x (adj ?g1))
                 else Map_get x (adj ?g1))"
    and ed: "edgesData g' = filter (\<lambda>(k, _). k \<notin> edgeKey ident ` set ns) (edgesData ?g1)"
    by blast
  have 1: "removeNode_loop ident (n # ns) g = (Inr (), g')"
    using s run by simp
  have 2: "map fst (adj g') = map fst (adj g)"
    using ks s by (simp add: keys_Map_set_present)
  have 3: "\<forall>x. Map_get x (adj g') =
                (if x \<in> set (n # ns) then map_option (Set_delete ident) (Map_get x (adj g))
                 else Map_get x (adj g))"
    using ad s by (auto simp: Set_delete_def)
  have 4: "edgesData g' = filter (\<lambda>(k, _). k \<notin> edgeKey ident ` set (n # ns)) (edgesData g)"
    unfolding ed by (auto simp: Map_delete_def AList.delete_eq intro: filter_cong)
  show ?case using 1 2 3 4 nd by simp
qed

lemma removeNode_cases:
  assumes "consistent g"
  shows "(\<not> Map_has ident (adj g) \<and> removeNode ident g = (Inl (NodeNotFound ident), g)) \<or>
    (\<exists>nbrs g'. Map_get ident (adj g) = Some nbrs \<and>
       removeNode ident g = (Inr (), g') \<and>
       (\<forall>x. Map_get x (adj g') =
            (if x = ident then None
             else if x \<in> set nbrs then map_option (Set_delete ident) (Map_get x (adj g))
             else Map_get x (adj g))) \<and>
       map fst (adj g') = removeAll ident (map fst (adj g)) \<and>
       nodesData g' = Map_delete ident (nodesData g) \<and>
       edgesData g' = filter (\<lambda>(k, _). k \<notin> edgeKey ident ` set nbrs) (edgesData g))"
proof (cases "Map_has ident (adj g)")
  case False
  then show ?thesis by (simp add: removeNode_def)
next
  case True
  then obtain nbrs where nb: "Map_get ident (adj g) = Some nbrs"
    by (auto simp: Map_has_get)
  have "\<forall>n \<in> set nbrs. Map_get n (adj g) \<noteq> None"
    using assms nb unfolding consistent_iff by fastforce
  from removeNode_loop_ok [OF this, of ident] obtain g1 where
    run: "removeNode_loop ident nbrs g = (Inr (), g1)"
    and nd: "nodesData g1 = nodesData g"
    and ks: "map fst (adj g1) = map fst (adj g)"
    and ad: "\<forall>x. Map_get x (adj g1) =
                (if x \<in> set nbrs then map_option (Set_delete ident) (Map_get x (adj g))
                 else Map_get x (adj g))"
    and ed: "edgesData g1 = filter (\<lambda>(k, _). k \<notin> edgeKey ident ` set nbrs) (edgesData g)"
    by blast
  let ?g' = "g1\<lparr>adj := Map_delete ident (adj g1),
                 nodesData := Map_delete ident (nodesData g1)\<rparr>"
  have "removeNode ident g = (Inr (), ?g')"
    using True nb run by (simp add: removeNode_def)
  moreover have "\<forall>x. Map_get x (adj ?g') =
            (if x = ident then None
             else if x \<in> set nbrs then map_option (Set_delete ident) (Map_get x (adj g))
             else Map_get x (adj g))"
    using ad by simp
  moreover have "map fst (adj ?g') = removeAll ident (map fst (adj g))"
    using ks by (simp add: keys_Map_delete)
  ultimately show ?thesis
    using nb nd ed by simp
qed

lemma removeEdge_cases:
  assumes "consistent g"
  shows "(\<exists>e. removeEdge u v g = (Inl e, g) \<and> e = EdgeNotFound u v \<and> hasEdge u v g = Inr False) \<or>
    (\<exists>su sv. Map_get u (adj g) = Some su \<and> Map_get v (adj g) = Some sv \<and>
       v \<in> set su \<and> u \<in> set sv \<and>
       removeEdge u v g =
         (Inr (), g\<lparr>adj := Map_set v (Set_delete u (if v = u then Set_delete v su else sv))
                            (Map_set u (Set_delete v su) (adj g)),
                      edgesData := Map_delete (edgeKey u v) (edgesData g)\<rparr>))"
proof (cases "hasEdge u v g = Inr True")
  case False
  then have "hasEdge u v g = Inr False"
    by (auto simp: hasEdge_def Map_has_get split: if_splits option.splits)
  then show ?thesis by (simp add: removeEdge_def)
next
  case True
  then obtain su where su: "Map_get u (adj g) = Some su" "v \<in> set su"
    by (auto simp: hasEdge_def Set_has_def split: if_splits option.splits)
  with assms obtain sv where sv: "Map_get v (adj g) = Some sv" "u \<in> set sv"
    unfolding consistent_iff by blast
  show ?thesis
    using True su sv by (auto simp: removeEdge_def Let_def)
qed

lemma consistentD_adj:
  "consistent g \<Longrightarrow> Map_get u (adj g) = Some s \<Longrightarrow> v \<in> set s \<Longrightarrow>
     \<exists>t. Map_get v (adj g) = Some t \<and> u \<in> set t"
  unfolding consistent_iff by blast

lemma consistentD_edges:
  "consistent g \<Longrightarrow> Map_has k (edgesData g) \<Longrightarrow>
     \<exists>u s v. Map_get u (adj g) = Some s \<and> v \<in> set s \<and> k = edgeKey u v"
  unfolding consistent_iff by blast

lemma consistentD_distinct: "consistent g \<Longrightarrow> distinct (map fst (adj g))"
  unfolding consistent_iff by blast

lemma consistentI:
  assumes "distinct (map fst (adj g))"
    and "\<And>u s v. Map_get u (adj g) = Some s \<Longrightarrow> v \<in> set s \<Longrightarrow>
           \<exists>t. Map_get v (adj g) = Some t \<and> u \<in> set t"
    and "\<And>k. Map_has k (edgesData g) \<Longrightarrow>
           \<exists>u s v. Map_get u (adj g) = Some s \<and> v \<in> set s \<and> k = edgeKey u v"
  shows "consistent g"
  unfolding consistent_iff using assms by blast

lemma consistent_addNode:
  assumes "consistent g"
  shows "consistent (snd (addNode ident attr g))"
proof -
  from addNode_adj [of ident attr g]
  consider (same) "snd (addNode ident attr g) = g"
    | (new) "Map_get ident (adj g) = None"
        "adj (snd (addNode ident attr g)) = Map_set ident [] (adj g)"
        "edgesData (snd (addNode ident attr g)) = edgesData g"
    by fastforce
  then show ?thesis
  proof cases
    case same
    with assms show ?thesis by simp
  next
    case new
    note fresh = new(1) and ad = new(2) and ed = new(3)
    let ?g' = "g\<lparr>adj := Map_set ident [] (adj g)\<rparr>"
    have "consistent ?g'"
    proof (rule consistentI)
      show "distinct (map fst (adj ?g'))"
        using consistentD_distinct [OF assms] by (simp add: distinct_Map_set)
    next
      fix u s v assume u: "Map_get u (adj ?g') = Some s" and v: "v \<in> set s"
      then have u': "u \<noteq> ident" "Map_get u (adj g) = Some s"
        by (auto split: if_splits)
      from consistentD_adj [OF assms u'(2) v] obtain t
        where t: "Map_get v (adj g) = Some t" "u \<in> set t" by blast
      with fresh have "v \<noteq> ident" by auto
      with t show "\<exists>t. Map_get v (adj ?g') = Some t \<and> u \<in> set t" by simp
    next
      fix k assume "Map_has k (edgesData ?g')"
      then have "Map_has k (edgesData g)" by simp
      from consistentD_edges [OF assms this] obtain u s v
        where w: "Map_get u (adj g) = Some s" "v \<in> set s" "k = edgeKey u v" by blast
      with fresh have "u \<noteq> ident" by auto
      with w show "\<exists>u s v. Map_get u (adj ?g') = Some s \<and> v \<in> set s \<and> k = edgeKey u v"
        by auto
    qed
    moreover have "consistent (snd (addNode ident attr g)) = consistent ?g'"
      by (rule consistent_cong) (simp_all add: ad ed)
    ultimately show ?thesis by simp
  qed
qed

lemma consistent_addNode_item:
  "consistent g \<Longrightarrow> consistent (snd (addNode_item it g))"
  by (cases it) (simp_all add: consistent_addNode)

lemma consistent_addNodesFrom:
  "consistent g \<Longrightarrow> consistent (snd (addNodesFrom items g))"
proof (induction items arbitrary: g)
  case Nil
  then show ?case by simp
next
  case (Cons it items)
  from consistent_addNode_item [OF Cons.prems, of it]
  have c: "consistent (snd (addNode_item it g))" .
  show ?case
  proof (cases "addNode_item it g")
    case (Pair r g')
    with c have c': "consistent g'" by simp
    show ?thesis
    proof (cases r)
      case (Inl e)
      with Pair c' show ?thesis by simp
    next
      case (Inr x)
      with Pair Cons.IH [OF c'] show ?thesis by simp
    qed
  qed
qed

lemma consistent_addEdge:
  assumes "consistent g"
  shows "consistent (snd (addEdge u v attr g))"
proof -
  let ?g' = "snd (addEdge u v attr g)"
  from addEdge_adj [of u v attr g]
  consider (same) "?g' = g"
    | (new) su sv where "Map_get u (adj g) = Some su" "Map_get v (adj g) = Some sv"
        "adj ?g' = Map_set v (Set_add u (if v = u then Set_add v su else sv))
          (Map_set u (Set_add v su) (adj g))"
        "edgesData ?g' = edgesData g \<or>
          (\<exists>r. edgesData ?g' = Map_set (edgeKey u v) r (edgesData g))"
    by fastforce
  then show ?thesis
  proof cases
    case same
    with assms show ?thesis by simp
  next
    case (new su sv)
    note su = new(1) and sv = new(2) and ad = new(3) and ed = new(4)
    have grow: "\<And>x s. Map_get x (adj g) = Some s \<Longrightarrow>
        \<exists>s'. Map_get x (adj ?g') = Some s' \<and> set s \<subseteq> set s'"
      unfolding ad using su sv by auto
    have new_u: "\<exists>s'. Map_get u (adj ?g') = Some s' \<and> v \<in> set s'"
      unfolding ad using su sv by auto
    have new_v: "\<exists>s'. Map_get v (adj ?g') = Some s' \<and> u \<in> set s'"
      unfolding ad using su sv by auto
    have old: "\<And>x s' y. Map_get x (adj ?g') = Some s' \<Longrightarrow> y \<in> set s' \<Longrightarrow>
        (\<exists>s. Map_get x (adj g) = Some s \<and> y \<in> set s) \<or> (x = u \<and> y = v) \<or> (x = v \<and> y = u)"
      unfolding ad using su sv by (auto split: if_splits)
    have keys: "\<And>k. Map_has k (edgesData ?g') \<Longrightarrow> k = edgeKey u v \<or> Map_has k (edgesData g)"
      using ed by (auto simp: Map_has_get split: if_splits)
    show ?thesis
    proof (rule consistentI)
      show "distinct (map fst (adj ?g'))"
        unfolding ad using consistentD_distinct [OF assms] by (simp add: distinct_Map_set)
    next
      fix x s' y assume x: "Map_get x (adj ?g') = Some s'" and y: "y \<in> set s'"
      from old [OF x y]
      consider s where "Map_get x (adj g) = Some s" "y \<in> set s"
        | "x = u" "y = v" | "x = v" "y = u"
        by blast
      then show "\<exists>t. Map_get y (adj ?g') = Some t \<and> x \<in> set t"
      proof cases
        case 1
        from consistentD_adj [OF assms 1] obtain t
          where "Map_get y (adj g) = Some t" "x \<in> set t" by blast
        with grow [of y t] show ?thesis by blast
      next
        case 2
        with new_v show ?thesis by blast
      next
        case 3
        with new_u show ?thesis by blast
      qed
    next
      fix k assume k: "Map_has k (edgesData ?g')"
      show "\<exists>a s b. Map_get a (adj ?g') = Some s \<and> b \<in> set s \<and> k = edgeKey a b"
      proof (cases "k = edgeKey u v")
        case True
        with new_u show ?thesis by blast
      next
        case False
        with keys [OF k] have "Map_has k (edgesData g)" by simp
        from consistentD_edges [OF assms this] obtain a s b
          where w: "Map_get a (adj g) = Some s" "b \<in> set s" "k = edgeKey a b" by blast
        with grow [of a s] show ?thesis by blast
      qed
    qed
  qed
qed

lemma consistent_removeEdge:
  assumes "consistent g"
  shows "consistent (snd (removeEdge u v g))"
proof -
  from removeEdge_cases [OF assms, of u v] show ?thesis
  proof (elim disjE exE conjE)
    fix e assume "removeEdge u v g = (Inl e, g)"
    with assms show ?thesis by simp
  next
    fix su sv
    assume su: "Map_get u (adj g) = Some su" and sv: "Map_get v (adj g) = Some sv"
      and post: "removeEdge u v g =
         (Inr (), g\<lparr>adj := Map_set v (Set_delete u (if v = u then Set_delete v su else sv))
                            (Map_set u (Set_delete v su) (adj g)),
                      edgesData := Map_delete (edgeKey u v) (edgesData g)\<rparr>)"
    let ?g' = "g\<lparr>adj := Map_set v (Set_delete u (if v = u then Set_delete v su else sv))
                            (Map_set u (Set_delete v su) (adj g)),
                      edgesData := Map_delete (edgeKey u v) (edgesData g)\<rparr>"
    have keep: "\<And>x s. Map_get x (adj g) = Some s \<Longrightarrow>
        \<exists>s'. Map_get x (adj ?g') = Some s' \<and>
          set s' = {y \<in> set s. \<not> (x = u \<and> y = v) \<and> \<not> (x = v \<and> y = u)}"
      using su sv by auto
    have orig: "\<And>x s'. Map_get x (adj ?g') = Some s' \<Longrightarrow>
        \<exists>s. Map_get x (adj g) = Some s \<and>
          set s' = {y \<in> set s. \<not> (x = u \<and> y = v) \<and> \<not> (x = v \<and> y = u)}"
      using su sv by (auto split: if_splits)
    have "consistent ?g'"
    proof (rule consistentI)
      show "distinct (map fst (adj ?g'))"
        using consistentD_distinct [OF assms] by (simp add: distinct_Map_set)
    next
      fix x s' y assume x: "Map_get x (adj ?g') = Some s'" and y: "y \<in> set s'"
      from orig [OF x] y obtain s where s: "Map_get x (adj g) = Some s" "y \<in> set s"
        and ne: "\<not> (x = u \<and> y = v)" "\<not> (x = v \<and> y = u)" by blast
      from consistentD_adj [OF assms s] obtain t
        where t: "Map_get y (adj g) = Some t" "x \<in> set t" by blast
      from keep [OF t(1)] obtain t' where "Map_get y (adj ?g') = Some t'"
        "set t' = {z \<in> set t. \<not> (y = u \<and> z = v) \<and> \<not> (y = v \<and> z = u)}" by blast
      with t(2) ne show "\<exists>t. Map_get y (adj ?g') = Some t \<and> x \<in> set t" by blast
    next
      fix k assume k: "Map_has k (edgesData ?g')"
      then have k1: "k \<noteq> edgeKey u v" and k2: "Map_has k (edgesData g)"
        by (auto simp: Map_has_get split: if_splits)
      from consistentD_edges [OF assms k2] obtain a s b
        where w: "Map_get a (adj g) = Some s" "b \<in> set s" "k = edgeKey a b" by blast
      from k1 w(3) have ne: "\<not> (a = u \<and> b = v)" "\<not> (a = v \<and> b = u)"
        using edgeKey_sym [of u v] by auto
      from keep [OF w(1)] obtain s' where "Map_get a (adj ?g') = Some s'"
        "set s' = {y \<in> set s. \<not> (a = u \<and> y = v) \<and> \<not> (a = v \<and> y = u)}" by blast
      with w ne show "\<exists>a s b. Map_get a (adj ?g') = Some s \<and> b \<in> set s \<and> k = edgeKey a b"
        by blast
    qed
    then show ?thesis by (simp add: post)
  qed
qed

lemma consistent_removeNode:
  assumes "consistent g"
  shows "consistent (snd (removeNode ident g))"
proof -
  from removeNode_cases [OF assms, of ident] show ?thesis
  proof (elim disjE exE conjE)
    assume "removeNode ident g = (Inl (NodeNotFound ident), g)"
    with assms show ?thesis by simp
  next
    fix nbrs g'
    assume nb: "Map_get ident (adj g) = Some nbrs"
      and post: "removeNode ident g = (Inr (), g')"
      and ad: "\<forall>x. Map_get x (adj g') =
            (if x = ident then None
             else if x \<in> set nbrs then map_option (Set_delete ident) (Map_get x (adj g))
             else Map_get x (adj g))"
      and ks: "map fst (adj g') = removeAll ident (map fst (adj g))"
      and ed: "edgesData g' = filter (\<lambda>(k, _). k \<notin> edgeKey ident ` set nbrs) (edgesData g)"
    have orig: "\<And>x s'. Map_get x (adj g') = Some s' \<Longrightarrow>
        x \<noteq> ident \<and> (\<exists>s. Map_get x (adj g) = Some s \<and> set s' = set s - {ident})"
    proof -
      fix x s' assume x: "Map_get x (adj g') = Some s'"
      with ad have xi: "x \<noteq> ident" by (auto split: if_splits)
      show "x \<noteq> ident \<and> (\<exists>s. Map_get x (adj g) = Some s \<and> set s' = set s - {ident})"
      proof (cases "x \<in> set nbrs")
        case True
        with x ad xi show ?thesis by auto
      next
        case False
        with x ad xi have s: "Map_get x (adj g) = Some s'" by simp
        have "ident \<notin> set s'"
        proof
          assume "ident \<in> set s'"
          from consistentD_adj [OF assms s this] nb False show False by auto
        qed
        with s xi show ?thesis by auto
      qed
    qed
    have keep: "\<And>x s. Map_get x (adj g) = Some s \<Longrightarrow> x \<noteq> ident \<Longrightarrow>
        \<exists>s'. Map_get x (adj g') = Some s' \<and> set s' = set s - {ident}"
    proof -
      fix x s assume s: "Map_get x (adj g) = Some s" and xi: "x \<noteq> ident"
      show "\<exists>s'. Map_get x (adj g') = Some s' \<and> set s' = set s - {ident}"
      proof (cases "x \<in> set nbrs")
        case True
        with s ad xi show ?thesis by auto
      next
        case False
        have "ident \<notin> set s"
        proof
          assume "ident \<in> set s"
          from consistentD_adj [OF assms s this] nb False show False by auto
        qed
        with s ad xi False show ?thesis by auto
      qed
    qed
    have "consistent g'"
    proof (rule consistentI)
      show "distinct (map fst (adj g'))"
        using consistentD_distinct [OF assms] by (simp add: ks distinct_removeAll)
    next
      fix x s' y assume x: "Map_get x (adj g') = Some s'" and y: "y \<in> set s'"
      from orig [OF x] y obtain s where xi: "x \<noteq> ident"
        and s: "Map_get x (adj g) = Some s" "y \<in> set s" and yi: "y \<noteq> ident" by blast
      from consistentD_adj [OF assms s] obtain t
        where t: "Map_get y (adj g) = Some t" "x \<in> set t" by blast
      from keep [OF t(1) yi] xi t(2)
      show "\<exists>t. Map_get y (adj g') = Some t \<and> x \<in> set t" by blast
    next
      fix k assume k: "Map_has k (edgesData g')"
      then have k1: "k \<notin> edgeKey ident ` set nbrs" and k2: "Map_has k (edgesData g)"
        by (auto simp: Map_has_def ed)
      from consistentD_edges [OF assms k2] obtain a s b
        where w: "Map_get a (adj g) = Some s" "b \<in> set s" "k = edgeKey a b" by blast
      have ai: "a \<noteq> ident"
      proof
        assume "a = ident"
        with w nb have "k \<in> edgeKey ident ` set nbrs" by auto
        with k1 show False by simp
      qed
      have bi: "b \<noteq> ident"
      proof
        assume b: "b = ident"
        from consistentD_adj [OF assms w(1,2)] b nb have "a \<in> set nbrs" by auto
        then have "edgeKey ident a \<in> edgeKey ident ` set nbrs" by simp
        with w(3) b edgeKey_sym [of a ident] k1 show False by simp
      qed
      from keep [OF w(1) ai] w(2,3) bi
      show "\<exists>a s b. Map_get a (adj g') = Some s \<and> b \<in> set s \<and> k = edgeKey a b" by blast
    qed
    then show ?thesis by (simp add: post)
  qed
qed

lemma reachable_consistent: "reachable g \<Longrightarrow> consistent g"
  by (induction rule: reachable.induct)
     (simp_all add: consistent_new consistent_addNode consistent_addNodesFrom
        consistent_removeNode consistent_addEdge consistent_removeEdge)



section \<open>The node set and the node-attribute store\<close>

lemma Map_has_keys: "Map_has k m \<longleftrightarrow> k \<in> set (Map_keys m)"
  by (simp add: Map_has_def Map_keys_def)

lemma keyset_Map_set: "set (Map_keys (Map_set k v m)) = insert k (set (Map_keys m))"
  using dom_update [of k v m] by (simp add: Map_set_def Map_keys_def)

lemma keyset_Map_set_present:
  "Map_get k m = Some w \<Longrightarrow> set (Map_keys (Map_set k v m)) = set (Map_keys m)"
  by (simp add: keys_Map_set_present Map_keys_def)

lemma keyset_Map_delete: "set (Map_keys (Map_delete k m)) = set (Map_keys m) - {k}"
  by (simp add: keys_Map_delete Map_keys_def)

lemma removeNode_loop_frame:
  "set (Map_keys (adj (snd (removeNode_loop ident ns g)))) = set (Map_keys (adj g)) \<and>
   nodesData (snd (removeNode_loop ident ns g)) = nodesData g"
proof (induction ns arbitrary: g)
  case Nil
  show ?case by simp
next
  case (Cons n ns)
  show ?case
  proof (cases "Map_get n (adj g)")
    case None
    then show ?thesis by simp
  next
    case (Some s)
    then show ?thesis
      using Cons.IH [of "g\<lparr>adj := Map_set n (Set_delete ident s) (adj g),
               edgesData := Map_delete (edgeKey ident n) (edgesData g)\<rparr>"]
      by (simp add: keyset_Map_set_present)
  qed
qed

lemma Map_get_keys: "Map_get k m = Some w \<Longrightarrow> k \<in> set (Map_keys m)"
  using Map_has_get [of k m] by (simp add: Map_has_keys)

lemma keyset_Map_set_has:
  "k \<in> set (Map_keys m) \<Longrightarrow> set (Map_keys (Map_set k v m)) = set (Map_keys m)"
  by (auto simp: keyset_Map_set)

lemma addEdge_frame:
  "set (Map_keys (adj (snd (addEdge u v attr g)))) = set (Map_keys (adj g)) \<and>
   nodesData (snd (addEdge u v attr g)) = nodesData g"
proof -
  from addEdge_adj [of u v attr g]
  consider (same) "snd (addEdge u v attr g) = g"
    | (new) su sv where "Map_get u (adj g) = Some su" "Map_get v (adj g) = Some sv"
        "adj (snd (addEdge u v attr g)) =
           Map_set v (Set_add u (if v = u then Set_add v su else sv))
             (Map_set u (Set_add v su) (adj g))"
        "nodesData (snd (addEdge u v attr g)) = nodesData g"
    by fastforce
  then show ?thesis
  proof cases
    case same
    then show ?thesis by simp
  next
    case (new su sv)
    from Map_get_keys [OF new(1)] Map_get_keys [OF new(2)]
    show ?thesis unfolding new(3) new(4) by (auto simp: keyset_Map_set)
  qed
qed

lemma removeEdge_frame:
  "set (Map_keys (adj (snd (removeEdge u v g)))) = set (Map_keys (adj g)) \<and>
   nodesData (snd (removeEdge u v g)) = nodesData g"
proof (cases "hasEdge u v g = Inr True")
  case False
  then have "snd (removeEdge u v g) = g"
    by (cases "hasEdge u v g") (auto simp: removeEdge_def)
  then show ?thesis by simp
next
  case True
  then obtain su where su: "Map_get u (adj g) = Some su"
    by (auto simp: hasEdge_def split: if_splits option.splits)
  let ?g1 = "g\<lparr>adj := Map_set u (Set_delete v su) (adj g)\<rparr>"
  have k1: "set (Map_keys (adj ?g1)) = set (Map_keys (adj g))"
    using su by (simp add: keyset_Map_set_present)
  show ?thesis
  proof (cases "Map_get v (adj ?g1)")
    case None
    with True su have "snd (removeEdge u v g) = ?g1"
      by (simp add: removeEdge_def Let_def)
    with k1 show ?thesis by simp
  next
    case (Some sv)
    with True su have "snd (removeEdge u v g) =
        ?g1\<lparr>adj := Map_set v (Set_delete u sv) (adj ?g1),
              edgesData := Map_delete (edgeKey u v) (edgesData ?g1)\<rparr>"
      by (simp add: removeEdge_def Let_def)
    moreover have "set (Map_keys (Map_set v (Set_delete u sv) (adj ?g1))) = set (Map_keys (adj ?g1))"
      using Some by (rule keyset_Map_set_present)
    ultimately show ?thesis using k1 by simp
  qed
qed

lemma removeNode_frame:
  "snd (removeNode ident g) = g \<or>
   (set (Map_keys (adj (snd (removeNode ident g)))) = set (Map_keys (adj g)) \<and>
    nodesData (snd (removeNode ident g)) = nodesData g) \<or>
   (set (Map_keys (adj (snd (removeNode ident g)))) = set (Map_keys (adj g)) - {ident} \<and>
    nodesData (snd (removeNode ident g)) = Map_delete ident (nodesData g))"
proof (cases "Map_get ident (adj g)")
  case None
  then show ?thesis by (simp add: removeNode_def Map_has_get)
next
  case (Some nbrs)
  obtain r g1 where run: "removeNode_loop ident nbrs g = (r, g1)"
    by (cases "removeNode_loop ident nbrs g")
  with removeNode_loop_frame [of ident nbrs g]
  have fr: "set (Map_keys (adj g1)) = set (Map_keys (adj g))" "nodesData g1 = nodesData g"
    by simp_all
  show ?thesis
  proof (cases r)
    case (Inl e)
    with Some run fr show ?thesis
      by (simp add: removeNode_def Map_has_get)
  next
    case (Inr x)
    with Some run fr show ?thesis
      by (simp add: removeNode_def Map_has_get keyset_Map_delete)
  qed
qed

text \<open>
  A record is stored for nodes only: \<open>addNode\<close> writes the node before its record, and
  \<open>removeNode\<close> deletes both.
\<close>

lemma records_within_new: "records_within_nodes new_Graph"
  by (simp add: records_within_nodes_def new_Graph_def Map_keys_def)

lemma records_within_addNode:
  "records_within_nodes g \<Longrightarrow> records_within_nodes (snd (addNode ident attr g))"
  using addNode_adj [of ident attr g]
  by (auto simp: records_within_nodes_def keyset_Map_set)

lemma records_within_addNodesFrom:
  "records_within_nodes g \<Longrightarrow> records_within_nodes (snd (addNodesFrom items g))"
proof (induction items arbitrary: g)
  case Nil
  then show ?case by simp
next
  case (Cons it items)
  have c: "records_within_nodes (snd (addNode_item it g))"
    using Cons.prems by (cases it) (simp_all add: records_within_addNode)
  show ?case
  proof (cases "addNode_item it g")
    case (Pair r g')
    with c have c': "records_within_nodes g'" by simp
    show ?thesis
    proof (cases r)
      case (Inl e)
      with Pair c' show ?thesis by simp
    next
      case (Inr x)
      with Pair Cons.IH [OF c'] show ?thesis by simp
    qed
  qed
qed

lemma records_within_removeNode:
  "records_within_nodes g \<Longrightarrow> records_within_nodes (snd (removeNode ident g))"
  using removeNode_frame [of ident g]
  by (auto simp: records_within_nodes_def keyset_Map_delete)

lemma records_within_addEdge:
  "records_within_nodes g \<Longrightarrow> records_within_nodes (snd (addEdge u v attr g))"
  using addEdge_frame [of u v attr g] by (simp add: records_within_nodes_def)

lemma records_within_removeEdge:
  "records_within_nodes g \<Longrightarrow> records_within_nodes (snd (removeEdge u v g))"
  using removeEdge_frame [of u v g] by (simp add: records_within_nodes_def)

lemma reachable_records_within: "reachable g \<Longrightarrow> records_within_nodes g"
  by (induction rule: reachable.induct)
     (simp_all add: records_within_new records_within_addNode records_within_addNodesFrom
        records_within_removeNode records_within_addEdge records_within_removeEdge)

lemma no_record_without_node:
  "reachable g \<Longrightarrow> \<not> hasNode ident g \<Longrightarrow>
     Map_get ident (nodesData g) = None \<and> node ident g = Inl (NodeNotFound ident)"
  using reachable_records_within [of g] Map_has_get [of ident "nodesData g"]
  by (auto simp: records_within_nodes_def hasNode_def node_def Map_has_keys)

subsection \<open>Evaluating the methods on the example graphs\<close>

lemma assign_fields_empty: "assign_fields t Map.empty = t"
  by (auto simp: assign_fields_def fun_eq_iff)

lemma assign_fields_upd:
  "k \<noteq> ''__proto__'' \<Longrightarrow> assign_fields t (a(k \<mapsto> x)) = (assign_fields t a)(k \<mapsto> x)"
  by (auto simp: assign_fields_def fun_eq_iff)

lemma assign_fields_proto_absent:
  "t ''__proto__'' = None \<Longrightarrow> assign_fields t (a(''__proto__'' \<mapsto> x)) = assign_fields t a"
  by (auto simp: assign_fields_def fun_eq_iff map_add_def)

lemma assign_fields_proto_present:
  "t ''__proto__'' = Some y \<Longrightarrow>
     assign_fields t (a(''__proto__'' \<mapsto> x)) = (assign_fields t a)(''__proto__'' \<mapsto> x)"
  by (auto simp: assign_fields_def fun_eq_iff)

lemma assign_fields_field:
  "f \<noteq> ''__proto__'' \<Longrightarrow>
     assign_fields old a f = (case a f of None \<Rightarrow> old f | Some x \<Rightarrow> Some x)"
  by (simp add: assign_fields_def map_add_def)

lemmas assign_eval =
  assign_fields_empty assign_fields_upd assign_fields_proto_absent assign_fields_proto_present

lemmas eval_defs =
  new_Graph_def addNode_def addEdge_def removeNode_def removeEdge_def hasNode_def hasEdge_def
  node_def edge_def neighbors_def checkValidId_def typedId_def edgeKey_def sort2_def
  number_to_string_def nat_digits.simps digit_char_def
  spread_def Object_assign_def assign_eval
  Map_has_def Map_get_def Map_set_def Map_delete_def Map_keys_def
  Set_has_def Set_add_def Set_delete_def Let_def

lemma example_graph_eq:
  "example_graph =
     \<lparr>adj = [(Num 1, [Str ''A'']), (Num 2, []), (Str ''A'', [Num 1])],
      nodesData = [(Num 1, Map.empty), (Num 2, Map.empty), (Str ''A'', Map.empty)],
      edgesData = [(''n:1|s:A'', [''weight'' \<mapsto> 5])]\<rparr>"
  by (simp add: example_graph_def eval_defs)


subsection \<open>The scenario of the spec\<close>

text \<open>
  Nodes \<open>1\<close>, \<open>2\<close>, \<open>"A"\<close> are added and the edge \<open>(1, "A", {weight: 5})\<close>; the edge
  is there with its record; after \<open>removeEdge\<close> it is not; after \<open>removeNode "A"\<close>
  the node is gone and two nodes are left.
\<close>

lemma spec_scenario:
  "hasEdge (Num 1) (Str ''A'') example_graph = Inr True \<and>
   edge (Num 1) (Str ''A'') example_graph = Inr (Some [''weight'' \<mapsto> 5]) \<and>
   fst (removeEdge (Num 1) (Str ''A'') example_graph) = Inr () \<and>
   hasEdge (Num 1) (Str ''A'') (snd (removeEdge (Num 1) (Str ''A'') example_graph)) = Inr False \<and>
   fst (removeNode (Str ''A'') (snd (removeEdge (Num 1) (Str ''A'') example_graph))) = Inr () \<and>
   hasNode (Str ''A'')
     (snd (removeNode (Str ''A'') (snd (removeEdge (Num 1) (Str ''A'') example_graph)))) = False \<and>
   numberOfNodes
     (snd (removeNode (Str ''A'') (snd (removeEdge (Num 1) (Str ''A'') example_graph)))) = 2"
  by (simp add: example_graph_eq eval_defs numberOfNodes_def)

subsection \<open>A node without a record\<close>

lemma reachable_half_added: "reachable half_added_graph"
  unfolding half_added_graph_def by (intro reachable.intros)

text \<open>
  C10. The two maps do not always have the same keys. \<open>addNode\<close> writes the node into
  \<open>adj\<close> before it copies \<^verbatim>\<open>attr\<close>; when the copy throws (a getter of the caller's
  object), the call fails and leaves a node without a record: on the empty graph,
  \<open>addNode 1\<close> with such an argument throws, and afterwards \<open>hasNode 1\<close> is true,
  \<open>node 1\<close> returns \<^verbatim>\<open>undefined\<close>, and the node-attribute map has no key while \<open>adj\<close>
  has one. What does hold in every reachable state is that a record is stored for
  nodes only (\<open>reachable_records_within\<close>, \<open>no_record_without_node\<close>).
\<close>

theorem node_without_record:
  "fst (addNode (Num 1) (Throwing Map.empty) (new_Graph :: int graph)) = Inl Thrown \<and>
   half_added_graph = snd (addNode (Num 1) (Throwing Map.empty) new_Graph) \<and>
   hasNode (Num 1) half_added_graph = True \<and>
   node (Num 1) half_added_graph = Inr None \<and>
   Map_keys (adj half_added_graph) = [Num 1] \<and>
   Map_keys (nodesData half_added_graph) = [] \<and>
   same_keys half_added_graph = False"
  by (simp add: half_added_graph_def same_keys_def eval_defs)

section \<open>Edge queries\<close>

text \<open>
  C9. \<open>hasEdge\<close> never throws, whatever the kind of its arguments: it is false when \<open>u\<close>
  is not a node, and otherwise tells whether \<open>v\<close> is in the neighbour set of \<open>u\<close>.
\<close>

theorem hasEdge_total:
  "(\<exists>b. hasEdge u v g = Inr b) \<and>
   (\<not> hasNode u g \<longrightarrow> hasEdge u v g = Inr False) \<and>
   (hasNode u g \<longrightarrow> (\<exists>s. neighbors u g = Inr s \<and> hasEdge u v g = Inr (v \<in> set s)))"
  using Map_has_get [of u "adj g"]
  by (auto simp: hasEdge_def hasNode_def neighbors_def Set_has_def)

theorem hasEdge_total_witness:
  "\<not> hasNode Null example_graph \<and> hasEdge Null (Bool True) example_graph = Inr False \<and>
   hasNode (Num 1) example_graph \<and>
   neighbors (Num 1) example_graph = Inr [Str ''A''] \<and>
   hasEdge (Num 1) (Str ''A'') example_graph = Inr True \<and>
   hasEdge (Num 1) Undefined example_graph = Inr False"
proof -
  have a: "\<not> hasNode Null example_graph" "hasNode (Num 1) example_graph"
    "neighbors (Num 1) example_graph = Inr [Str ''A'']"
    by (simp_all add: example_graph_eq eval_defs)
  from a hasEdge_total [of Null "Bool True" example_graph]
    hasEdge_total [of "Num 1" "Str ''A''" example_graph]
    hasEdge_total [of "Num 1" Undefined example_graph]
  show ?thesis by simp
qed

section \<open>Identifier kinds and rejected calls\<close>

lemma checkValidId_iff: "checkValidId x = Inr () \<longleftrightarrow> number_or_string x"
  by (auto simp: checkValidId_def number_or_string_def Let_def)


lemma valid_kind_accepted: "valid_kind x \<Longrightarrow> number_or_string x"
  by (cases x) (simp_all add: valid_kind_def number_or_string_def)

lemma number_or_string_cases:
  "number_or_string x \<Longrightarrow>
     (\<exists>i. x = Num i) \<or> x = NaN \<or> x = Infinity \<or> x = NegInfinity \<or> (\<exists>s. x = Str s)"
  by (cases x) (simp_all add: number_or_string_def)

lemma valid_keys_new: "valid_keys new_Graph"
  by (simp add: valid_keys_def new_Graph_def Map_keys_def)

lemma valid_keys_addNode: "valid_keys g \<Longrightarrow> valid_keys (snd (addNode ident attr g))"
  using addNode_cases [of ident attr g]
  by (auto simp: valid_keys_def keyset_Map_set checkValidId_iff)

lemma valid_keys_addNodesFrom: "valid_keys g \<Longrightarrow> valid_keys (snd (addNodesFrom items g))"
proof (induction items arbitrary: g)
  case Nil
  then show ?case by simp
next
  case (Cons it items)
  have c: "valid_keys (snd (addNode_item it g))"
    using Cons.prems by (cases it) (simp_all add: valid_keys_addNode)
  show ?case
  proof (cases "addNode_item it g")
    case (Pair r g')
    with c have c': "valid_keys g'" by simp
    show ?thesis
    proof (cases r)
      case (Inl e)
      with Pair c' show ?thesis by simp
    next
      case (Inr x)
      with Pair Cons.IH [OF c'] show ?thesis by simp
    qed
  qed
qed

lemma removeNode_keys_subset:
  "set (Map_keys (adj (snd (removeNode ident g)))) \<subseteq> set (Map_keys (adj g))"
proof (cases "Map_get ident (adj g)")
  case None
  then show ?thesis by (simp add: removeNode_def Map_has_get)
next
  case (Some nbrs)
  obtain r g1 where run: "removeNode_loop ident nbrs g = (r, g1)"
    by (cases "removeNode_loop ident nbrs g")
  with removeNode_loop_frame [of ident nbrs g]
  have fr: "set (Map_keys (adj g1)) = set (Map_keys (adj g))"
    by simp
  show ?thesis
  proof (cases r)
    case (Inl e)
    with Some run fr show ?thesis
      by (simp add: removeNode_def Map_has_get)
  next
    case (Inr x)
    with Some run fr show ?thesis
      by (auto simp: removeNode_def Map_has_get keyset_Map_delete)
  qed
qed

lemma valid_keys_removeNode: "valid_keys g \<Longrightarrow> valid_keys (snd (removeNode ident g))"
  using removeNode_keys_subset [of ident g] by (auto simp: valid_keys_def)

lemma valid_keys_addEdge: "valid_keys g \<Longrightarrow> valid_keys (snd (addEdge u v attr g))"
  using addEdge_frame [of u v attr g] by (simp add: valid_keys_def)

lemma valid_keys_removeEdge: "valid_keys g \<Longrightarrow> valid_keys (snd (removeEdge u v g))"
  using removeEdge_frame [of u v g] by (simp add: valid_keys_def)

lemma reachable_valid_keys: "reachable g \<Longrightarrow> valid_keys g"
  by (induction rule: reachable.induct)
     (simp_all add: valid_keys_new valid_keys_addNode valid_keys_addNodesFrom
        valid_keys_removeNode valid_keys_addEdge valid_keys_removeEdge)

lemma reachable_hasNode_valid: "reachable g \<Longrightarrow> hasNode u g \<Longrightarrow> number_or_string u"
  using reachable_valid_keys [of g] by (simp add: valid_keys_def hasNode_def Map_has_keys)

subsection \<open>A call rejected by the container leaves the state as it was\<close>

lemma addNode_fail:
  "fst (addNode ident attr g) = Inl e \<Longrightarrow>
     (own_error e \<and> snd (addNode ident attr g) = g) \<or> e = Thrown"
  using addNode_cases [of ident attr g] by auto


lemma own_error_not_Thrown: "own_error e \<Longrightarrow> e \<noteq> Thrown"
  by (auto simp: own_error_def)







section \<open>Adding an edge\<close>

lemma addEdge_ok:
  assumes "number_or_string u" "number_or_string v" "hasNode u g" "hasNode v g"
  shows "\<exists>su sv. Map_get u (adj g) = Some su \<and> Map_get v (adj g) = Some sv \<and>
      addEdge u v (Record a) g =
        (Inr (), g\<lparr>adj := Map_set v (Set_add u (if v = u then Set_add v su else sv))
                            (Map_set u (Set_add v su) (adj g)),
                     edgesData := Map_set (edgeKey u v)
                            (case Map_get (edgeKey u v) (edgesData g) of
                               None \<Rightarrow> a | Some old \<Rightarrow> assign_fields old a)
                            (edgesData g)\<rparr>)"
proof -
  from assms(3,4) obtain su sv where s: "Map_get u (adj g) = Some su" "Map_get v (adj g) = Some sv"
    by (auto simp: hasNode_def Map_has_get)
  from assms(1,2) have c: "checkValidId u = Inr ()" "checkValidId v = Inr ()"
    by (simp_all add: checkValidId_iff)
  have h: "Map_has u (adj g)" "Map_has v (adj g)"
    using assms(3,4) by (simp_all add: hasNode_def)
  show ?thesis
    using s c h
    by (auto simp: addEdge_def Let_def Map_has_get spread_def Object_assign_def
        split: option.splits)
qed

lemma addEdge_succeeds:
  "number_or_string u \<Longrightarrow> number_or_string v \<Longrightarrow> hasNode u g \<Longrightarrow> hasNode v g \<Longrightarrow>
     fst (addEdge u v (Record a) g) = Inr ()"
  using addEdge_ok [of u v g a] by auto

lemma addEdge_success:
  assumes "fst (addEdge u v attr g) = Inr ()"
  shows "\<exists>a. attr = Record a \<and> number_or_string u \<and> number_or_string v \<and>
           hasNode u g \<and> hasNode v g"
proof -
  from addEdge_cases [of u v attr g] show ?thesis
  proof (elim disjE exE conjE)
    fix e assume "addEdge u v attr g = (Inl e, g)"
    with assms show ?thesis by simp
  next
    fix su sv
    assume s: "Map_get u (adj g) = Some su" "Map_get v (adj g) = Some sv"
      "checkValidId u = Inr ()" "checkValidId v = Inr ()"
      and c: "case Map_get (edgeKey u v) (edgesData g) of
         None \<Rightarrow>
           (case attr of
              Record a \<Rightarrow>
                addEdge u v attr g =
                  (Inr (), g\<lparr>adj := Map_set v (Set_add u (if v = u then Set_add v su else sv))
                                      (Map_set u (Set_add v su) (adj g)),
                               edgesData := Map_set (edgeKey u v) a (edgesData g)\<rparr>)
            | Throwing p \<Rightarrow>
                addEdge u v attr g =
                  (Inl Thrown, g\<lparr>adj := Map_set v (Set_add u (if v = u then Set_add v su else sv))
                                      (Map_set u (Set_add v su) (adj g))\<rparr>))
       | Some old \<Rightarrow>
           addEdge u v attr g =
             (fst (Object_assign old attr),
              g\<lparr>adj := Map_set v (Set_add u (if v = u then Set_add v su else sv))
                          (Map_set u (Set_add v su) (adj g)),
                edgesData := Map_set (edgeKey u v) (snd (Object_assign old attr))
                          (edgesData g)\<rparr>)"
    have "\<exists>a. attr = Record a"
      using c assms
      by (cases "Map_get (edgeKey u v) (edgesData g)"; cases attr)
         (auto simp: Object_assign_def)
    with s show ?thesis
      by (auto simp: checkValidId_iff hasNode_def Map_has_get)
  qed
qed

lemma addEdge_post:
  assumes "fst (addEdge u v (Record a) g) = Inr ()"
  shows "hasEdge u v (snd (addEdge u v (Record a) g)) = Inr True"
    and "hasEdge v u (snd (addEdge u v (Record a) g)) = Inr True"
    and "Map_get (edgeKey u v) (edgesData (snd (addEdge u v (Record a) g))) =
           Some (case Map_get (edgeKey u v) (edgesData g) of
                   None \<Rightarrow> a | Some old \<Rightarrow> assign_fields old a)"
proof -
  from addEdge_success [OF assms]
  have k: "number_or_string u" "number_or_string v" "hasNode u g" "hasNode v g"
    by simp_all
  from addEdge_ok [OF k, of a] obtain su sv where
    s: "Map_get u (adj g) = Some su" "Map_get v (adj g) = Some sv"
    and post: "addEdge u v (Record a) g =
        (Inr (), g\<lparr>adj := Map_set v (Set_add u (if v = u then Set_add v su else sv))
                            (Map_set u (Set_add v su) (adj g)),
                     edgesData := Map_set (edgeKey u v)
                            (case Map_get (edgeKey u v) (edgesData g) of
                               None \<Rightarrow> a | Some old \<Rightarrow> assign_fields old a)
                            (edgesData g)\<rparr>)"
    by blast
  show "hasEdge u v (snd (addEdge u v (Record a) g)) = Inr True"
    unfolding post by (simp add: hasEdge_def Map_has_get Set_has_def)
  show "hasEdge v u (snd (addEdge u v (Record a) g)) = Inr True"
    unfolding post by (simp add: hasEdge_def Map_has_get Set_has_def)
  show "Map_get (edgeKey u v) (edgesData (snd (addEdge u v (Record a) g))) =
           Some (case Map_get (edgeKey u v) (edgesData g) of
                   None \<Rightarrow> a | Some old \<Rightarrow> assign_fields old a)"
    unfolding post by simp
qed


lemma edge_of_hasEdge:
  "hasEdge u v g = Inr True \<Longrightarrow> edge u v g = Inr (Map_get (edgeKey u v) (edgesData g))"
  by (simp add: edge_def)

subsection \<open>An existing edge whose record is missing\<close>

text \<open>
  An edge can be in \<open>adj\<close> with nothing stored under its key: after an \<open>addEdge\<close> whose
  \<^verbatim>\<open>attr\<close> threw, and after the record was deleted through another pair with the
  same key. Both orders of the endpoints then get \<^verbatim>\<open>undefined\<close> from \<open>edge\<close>.
\<close>

lemma reachable_orphan_graph: "reachable orphan_graph"
  unfolding orphan_graph_def clash_graph_def clash_start_def by (intro reachable.intros)

lemma orphan_graph_edge:
  "hasEdge (Str ''a|s:b'') (Str ''c'') orphan_graph = Inr True \<and>
   hasEdge (Str ''c'') (Str ''a|s:b'') orphan_graph = Inr True \<and>
   Map_get (edgeKey (Str ''a|s:b'') (Str ''c'')) (edgesData orphan_graph) = None \<and>
   edge (Str ''a|s:b'') (Str ''c'') orphan_graph = Inr None \<and>
   edge (Str ''c'') (Str ''a|s:b'') orphan_graph = Inr None"
  by (simp add: orphan_graph_def clash_graph_def clash_start_def eval_defs)

lemma thrown_attr_edge:
  "hasEdge (Num 1) (Num 2)
     (snd (addEdge (Num 1) (Num 2) (Throwing Map.empty) example_graph)) = Inr True \<and>
   edge (Num 1) (Num 2)
     (snd (addEdge (Num 1) (Num 2) (Throwing Map.empty) example_graph)) = Inr None \<and>
   edge (Num 2) (Num 1)
     (snd (addEdge (Num 1) (Num 2) (Throwing Map.empty) example_graph)) = Inr None"
  by (simp add: example_graph_eq eval_defs)

subsection \<open>Both orders read one entry of the store\<close>



subsection \<open>The record that an edge declaration writes\<close>

text \<open>
  For existing nodes \<open>u\<close> and \<open>v\<close> of a reachable state and an \<^verbatim>\<open>attr\<close> that is read
  in full: when the store holds nothing under the canonical key of the pair, \<open>addEdge\<close>
  stores the fields of \<^verbatim>\<open>attr\<close>; when it holds the record \<open>old\<close>, \<open>addEdge\<close> leaves
  \<open>assign_fields old a\<close> there, in which each field of \<^verbatim>\<open>attr\<close> other than
  \<^verbatim>\<open>__proto__\<close> wins over the field of \<open>old\<close> of that name.
\<close>

lemma addEdge_record_under_key:
  assumes "reachable g" "hasNode u g" "hasNode v g"
  shows "Map_get (edgeKey u v) (edgesData g) = None \<Longrightarrow>
           edge u v (snd (addEdge u v (Record a) g)) = Inr (Some a)"
    and "Map_get (edgeKey u v) (edgesData g) = Some old \<Longrightarrow>
           edge u v (snd (addEdge u v (Record a) g)) = Inr (Some (assign_fields old a))"
proof -
  from assms have k: "number_or_string u" "number_or_string v"
    by (auto intro: reachable_hasNode_valid)
  have ok: "fst (addEdge u v (Record a) g) = Inr ()"
    using k assms by (simp add: addEdge_succeeds)
  have e: "edge u v (snd (addEdge u v (Record a) g)) =
      Inr (Some (case Map_get (edgeKey u v) (edgesData g) of
                   None \<Rightarrow> a | Some old \<Rightarrow> assign_fields old a))"
    using addEdge_post [OF ok] by (simp add: edge_of_hasEdge)
  show "Map_get (edgeKey u v) (edgesData g) = None \<Longrightarrow>
           edge u v (snd (addEdge u v (Record a) g)) = Inr (Some a)"
    using e by simp
  show "Map_get (edgeKey u v) (edgesData g) = Some old \<Longrightarrow>
           edge u v (snd (addEdge u v (Record a) g)) = Inr (Some (assign_fields old a))"
    using e by simp
qed

lemma addEdge_twice_under_free_key:
  assumes "reachable g" "hasNode u g" "hasNode v g"
    "Map_get (edgeKey u v) (edgesData g) = None" "y \<noteq> ''__proto__''"
  shows "edge u v (snd (addEdge u v (Record [y \<mapsto> j])
            (snd (addEdge u v (Record [x \<mapsto> i]) g)))) = Inr (Some [x \<mapsto> i, y \<mapsto> j])"
proof -
  let ?g1 = "snd (addEdge u v (Record [x \<mapsto> i]) g)"
  from assms have k: "number_or_string u" "number_or_string v"
    by (auto intro: reachable_hasNode_valid)
  have ok: "fst (addEdge u v (Record [x \<mapsto> i]) g) = Inr ()"
    using k assms by (simp add: addEdge_succeeds)
  have r1: "reachable ?g1" using assms(1) by (simp add: reachable.r_addEdge)
  have n1: "hasNode u ?g1" "hasNode v ?g1"
    using addEdge_frame [of u v "Record [x \<mapsto> i]" g] assms(2,3)
    by (simp_all add: hasNode_def Map_has_keys)
  have m: "Map_get (edgeKey u v) (edgesData ?g1) = Some [x \<mapsto> i]"
    using addEdge_post(3) [OF ok] assms(4) by simp
  from addEdge_record_under_key(2) [OF r1 n1 m, of "[y \<mapsto> j]"] assms(5)
  show ?thesis by (simp add: assign_eval)
qed

lemma record_differs: "[''x'' \<mapsto> (1::int), ''a'' \<mapsto> 1, ''b'' \<mapsto> 2] \<noteq> [''a'' \<mapsto> 1, ''b'' \<mapsto> 2]"
proof
  assume "[''x'' \<mapsto> (1::int), ''a'' \<mapsto> 1, ''b'' \<mapsto> 2] = [''a'' \<mapsto> 1, ''b'' \<mapsto> 2]"
  from fun_cong [OF this, of "''x''"] show False by simp
qed

lemma reachable_clash_start: "reachable clash_start"
  unfolding clash_start_def by (intro reachable.intros)

lemma clash_start_eq:
  "clash_start =
     \<lparr>adj = [(Str ''a|s:b'', [Str ''c'']), (Str ''c'', [Str ''a|s:b'']),
             (Str ''a'', []), (Str ''b|s:c'', [])],
      nodesData = [(Str ''a|s:b'', Map.empty), (Str ''c'', Map.empty),
                   (Str ''a'', Map.empty), (Str ''b|s:c'', Map.empty)],
      edgesData = [(''s:a|s:b|s:c'', [''x'' \<mapsto> 1])]\<rparr>"
  by (simp add: clash_start_def eval_defs)

text \<open>
  C6. The record that \<open>addEdge\<close> looks up is the one under the canonical key string,
  and the pairs \<open>{"a|s:b", "c"}\<close> and \<open>{"a", "b|s:c"}\<close> have the same key
  \<open>s:a|s:b|s:c\<close>. In \<open>clash_start\<close> the four nodes exist and only the first pair is
  joined, with the record \<open>{x: 1}\<close>: there is no edge and no record for the pair
  \<open>{"a", "b|s:c"}\<close>. Declaring that edge with \<open>{a: 1}\<close> does not store a copy of
  \<open>{a: 1}\<close> but merges it into the record of the other edge, and declaring it again
  with \<open>{b: 2}\<close> leaves \<open>{x: 1, a: 1, b: 2}\<close>, not \<open>{a: 1, b: 2}\<close>; the record of the
  edge \<open>{"a|s:b", "c"}\<close> has changed with it. When no node identifier contains the
  bar, a pair that is not joined has no record and the two declarations do leave
  \<open>{a: 1, b: 2}\<close> (\<open>addEdge_merge_bar_free\<close> below).
\<close>

theorem addEdge_merges_into_other_edge:
  "hasNode (Str ''a'') clash_start \<and> hasNode (Str ''b|s:c'') clash_start \<and>
   hasEdge (Str ''a'') (Str ''b|s:c'') clash_start = Inr False \<and>
   edge (Str ''a'') (Str ''b|s:c'') clash_start =
     Inl (EdgeNotFound (Str ''a'') (Str ''b|s:c'')) \<and>
   edge (Str ''a|s:b'') (Str ''c'') clash_start = Inr (Some [''x'' \<mapsto> 1]) \<and>
   edgeKey (Str ''a'') (Str ''b|s:c'') = edgeKey (Str ''a|s:b'') (Str ''c'') \<and>
   fst (addEdge (Str ''a'') (Str ''b|s:c'') (Record [''a'' \<mapsto> 1]) clash_start) = Inr () \<and>
   edge (Str ''a'') (Str ''b|s:c'')
     (snd (addEdge (Str ''a'') (Str ''b|s:c'') (Record [''a'' \<mapsto> 1]) clash_start)) =
     Inr (Some [''x'' \<mapsto> 1, ''a'' \<mapsto> 1]) \<and>
   fst (addEdge (Str ''a'') (Str ''b|s:c'') (Record [''b'' \<mapsto> 2])
     (snd (addEdge (Str ''a'') (Str ''b|s:c'') (Record [''a'' \<mapsto> 1]) clash_start))) = Inr () \<and>
   edge (Str ''a'') (Str ''b|s:c'')
     (snd (addEdge (Str ''a'') (Str ''b|s:c'') (Record [''b'' \<mapsto> 2])
        (snd (addEdge (Str ''a'') (Str ''b|s:c'') (Record [''a'' \<mapsto> 1]) clash_start)))) =
     Inr (Some [''x'' \<mapsto> 1, ''a'' \<mapsto> 1, ''b'' \<mapsto> 2]) \<and>
   edge (Str ''a'') (Str ''b|s:c'')
     (snd (addEdge (Str ''a'') (Str ''b|s:c'') (Record [''b'' \<mapsto> 2])
        (snd (addEdge (Str ''a'') (Str ''b|s:c'') (Record [''a'' \<mapsto> 1]) clash_start)))) \<noteq>
     Inr (Some [''a'' \<mapsto> 1, ''b'' \<mapsto> 2]) \<and>
   edge (Str ''a|s:b'') (Str ''c'')
     (snd (addEdge (Str ''a'') (Str ''b|s:c'') (Record [''b'' \<mapsto> 2])
        (snd (addEdge (Str ''a'') (Str ''b|s:c'') (Record [''a'' \<mapsto> 1]) clash_start)))) =
     Inr (Some [''x'' \<mapsto> 1, ''a'' \<mapsto> 1, ''b'' \<mapsto> 2])"
  using record_differs by (simp add: clash_start_eq eval_defs)

text \<open>
  A field named \<^verbatim>\<open>__proto__\<close> is copied when the edge is first declared, and is not
  merged into a record that has no field of that name.
\<close>

lemma addEdge_proto_field:
  "edge (Num 1) (Num 2)
     (snd (addEdge (Num 1) (Num 2) (Record [''__proto__'' \<mapsto> 9]) example_graph)) =
     Inr (Some [''__proto__'' \<mapsto> 9]) \<and>
   edge (Num 1) (Str ''A'') example_graph = Inr (Some [''weight'' \<mapsto> 5]) \<and>
   edge (Num 1) (Str ''A'')
     (snd (addEdge (Num 1) (Str ''A'') (Record [''__proto__'' \<mapsto> 9, ''c'' \<mapsto> 1])
        example_graph)) =
     Inr (Some [''weight'' \<mapsto> 5, ''c'' \<mapsto> 1])"
  by (simp add: example_graph_eq eval_defs)

section \<open>Removing a node\<close>

text \<open>
  C4. \<open>removeNode u\<close> on an existing node returns, and afterwards \<open>u\<close> is not a node,
  its attribute record is gone, and for every \<open>v\<close> that was a neighbour of \<open>u\<close> at the
  call (\<open>u\<close> itself when it had a self-loop) there is no edge between \<open>u\<close> and \<open>v\<close>,
  \<open>u\<close> is not in the neighbour set of \<open>v\<close>, and no record is stored under the
  canonical key of the pair. No neighbour set at all holds \<open>u\<close> any more.
\<close>

theorem removeNode_removes_incident_edges:
  "reachable g \<and> neighbors u g = Inr nbrs \<longrightarrow>
     fst (removeNode u g) = Inr () \<and>
     \<not> hasNode u (snd (removeNode u g)) \<and>
     Map_get u (nodesData (snd (removeNode u g))) = None \<and>
     (\<forall>v \<in> set nbrs.
        hasEdge u v (snd (removeNode u g)) = Inr False \<and>
        hasEdge v u (snd (removeNode u g)) = Inr False \<and>
        \<not> Map_has (edgeKey u v) (edgesData (snd (removeNode u g)))) \<and>
     (\<forall>w t. neighbors w (snd (removeNode u g)) = Inr t \<longrightarrow> u \<notin> set t)"
proof (intro impI)
  assume a: "reachable g \<and> neighbors u g = Inr nbrs"
  then have c: "consistent g" by (simp add: reachable_consistent)
  from a have nb: "Map_get u (adj g) = Some nbrs" "Map_has u (adj g)"
    by (auto simp: neighbors_def split: if_splits option.splits)
  from removeNode_cases [OF c, of u] nb obtain g' where
    post: "removeNode u g = (Inr (), g')"
    and ad: "\<forall>x. Map_get x (adj g') =
            (if x = u then None
             else if x \<in> set nbrs then map_option (Set_delete u) (Map_get x (adj g))
             else Map_get x (adj g))"
    and nd: "nodesData g' = Map_delete u (nodesData g)"
    and ed: "edgesData g' = filter (\<lambda>(k, _). k \<notin> edgeKey u ` set nbrs) (edgesData g)"
    by auto
  have c': "consistent g'"
    using consistent_removeNode [OF c, of u] post by simp
  have gone: "Map_get u (adj g') = None" using ad by simp
  have nowhere: "\<And>w t. Map_get w (adj g') = Some t \<Longrightarrow> u \<notin> set t"
  proof
    fix w t assume "Map_get w (adj g') = Some t" "u \<in> set t"
    from consistentD_adj [OF c' this] gone show False by simp
  qed
  have 1: "\<not> hasNode u g'" using gone by (simp add: hasNode_def Map_has_get)
  have 2: "Map_get u (nodesData g') = None" by (simp add: nd)
  have 3: "\<forall>v \<in> set nbrs. hasEdge u v g' = Inr False \<and> hasEdge v u g' = Inr False \<and>
        \<not> Map_has (edgeKey u v) (edgesData g')"
  proof
    fix v assume v: "v \<in> set nbrs"
    have "hasEdge u v g' = Inr False" using gone by (simp add: hasEdge_def Map_has_get)
    moreover have "hasEdge v u g' = Inr False"
      using nowhere [of v] by (auto simp: hasEdge_def Map_has_get Set_has_def)
    moreover have "\<not> Map_has (edgeKey u v) (edgesData g')"
      using v by (auto simp: Map_has_def ed)
    ultimately show "hasEdge u v g' = Inr False \<and> hasEdge v u g' = Inr False \<and>
        \<not> Map_has (edgeKey u v) (edgesData g')" by simp
  qed
  have 4: "\<forall>w t. neighbors w g' = Inr t \<longrightarrow> u \<notin> set t"
    using nowhere by (auto simp: neighbors_def split: if_splits option.splits)
  show "fst (removeNode u g) = Inr () \<and>
     \<not> hasNode u (snd (removeNode u g)) \<and>
     Map_get u (nodesData (snd (removeNode u g))) = None \<and>
     (\<forall>v \<in> set nbrs.
        hasEdge u v (snd (removeNode u g)) = Inr False \<and>
        hasEdge v u (snd (removeNode u g)) = Inr False \<and>
        \<not> Map_has (edgeKey u v) (edgesData (snd (removeNode u g)))) \<and>
     (\<forall>w t. neighbors w (snd (removeNode u g)) = Inr t \<longrightarrow> u \<notin> set t)"
    unfolding post using 1 2 3 4 by simp
qed

lemma loop_graph_eq:
  "loop_graph =
     \<lparr>adj = [(Num 1, [Str ''A'']), (Num 2, [Str ''A'']), (Str ''A'', [Num 1, Str ''A'', Num 2])],
      nodesData = [(Num 1, Map.empty), (Num 2, Map.empty), (Str ''A'', Map.empty)],
      edgesData = [(''n:1|s:A'', [''weight'' \<mapsto> 5]), (''s:A|s:A'', [''w'' \<mapsto> 1]),
                   (''n:2|s:A'', Map.empty)]\<rparr>"
  by (simp add: loop_graph_def eval_defs)

lemma reachable_loop_graph: "reachable loop_graph"
  unfolding loop_graph_def by (intro reachable.intros)

theorem removeNode_removes_incident_edges_witness:
  "reachable loop_graph \<and>
   neighbors (Str ''A'') loop_graph = Inr [Num 1, Str ''A'', Num 2] \<and>
   fst (removeNode (Str ''A'') loop_graph) = Inr () \<and>
   \<not> hasNode (Str ''A'') (snd (removeNode (Str ''A'') loop_graph)) \<and>
   Map_get (Str ''A'') (nodesData (snd (removeNode (Str ''A'') loop_graph))) = None \<and>
   hasEdge (Str ''A'') (Str ''A'') (snd (removeNode (Str ''A'') loop_graph)) = Inr False \<and>
   \<not> Map_has (edgeKey (Str ''A'') (Str ''A'')) (edgesData (snd (removeNode (Str ''A'') loop_graph))) \<and>
   hasEdge (Str ''A'') (Num 1) (snd (removeNode (Str ''A'') loop_graph)) = Inr False \<and>
   hasEdge (Num 1) (Str ''A'') (snd (removeNode (Str ''A'') loop_graph)) = Inr False \<and>
   \<not> Map_has (edgeKey (Str ''A'') (Num 1)) (edgesData (snd (removeNode (Str ''A'') loop_graph))) \<and>
   snd (removeNode (Str ''A'') loop_graph) =
     \<lparr>adj = [(Num 1, []), (Num 2, [])],
      nodesData = [(Num 1, Map.empty), (Num 2, Map.empty)],
      edgesData = []\<rparr>"
proof -
  note r = reachable_loop_graph
  have n: "neighbors (Str ''A'') loop_graph = Inr [Num 1, Str ''A'', Num 2]"
    by (simp add: loop_graph_eq eval_defs)
  have m: "Str ''A'' \<in> set [Num 1, Str ''A'', Num 2]" "Num 1 \<in> set [Num 1, Str ''A'', Num 2]"
    by simp_all
  from r n removeNode_removes_incident_edges [of loop_graph "Str ''A''" "[Num 1, Str ''A'', Num 2]"]
  have t: "fst (removeNode (Str ''A'') loop_graph) = Inr () \<and>
     \<not> hasNode (Str ''A'') (snd (removeNode (Str ''A'') loop_graph)) \<and>
     Map_get (Str ''A'') (nodesData (snd (removeNode (Str ''A'') loop_graph))) = None \<and>
     (\<forall>v \<in> set [Num 1, Str ''A'', Num 2].
        hasEdge (Str ''A'') v (snd (removeNode (Str ''A'') loop_graph)) = Inr False \<and>
        hasEdge v (Str ''A'') (snd (removeNode (Str ''A'') loop_graph)) = Inr False \<and>
        \<not> Map_has (edgeKey (Str ''A'') v) (edgesData (snd (removeNode (Str ''A'') loop_graph))))"
    by blast
  have e: "snd (removeNode (Str ''A'') loop_graph) =
     \<lparr>adj = [(Num 1, []), (Num 2, [])],
      nodesData = [(Num 1, Map.empty), (Num 2, Map.empty)],
      edgesData = []\<rparr>"
    by (simp add: loop_graph_eq eval_defs)
  from t m have "hasEdge (Str ''A'') (Str ''A'') (snd (removeNode (Str ''A'') loop_graph)) = Inr False"
    "\<not> Map_has (edgeKey (Str ''A'') (Str ''A'')) (edgesData (snd (removeNode (Str ''A'') loop_graph)))"
    "hasEdge (Str ''A'') (Num 1) (snd (removeNode (Str ''A'') loop_graph)) = Inr False"
    "hasEdge (Num 1) (Str ''A'') (snd (removeNode (Str ''A'') loop_graph)) = Inr False"
    "\<not> Map_has (edgeKey (Str ''A'') (Num 1)) (edgesData (snd (removeNode (Str ''A'') loop_graph)))"
    by blast+
  with r n t e show ?thesis by blast
qed

section \<open>Adding nodes in bulk\<close>

lemma addNode_item_eq: "addNode_item it g = addNode (item_id it) (item_arg it) g"
  by (cases it) simp_all

lemma addNodesFrom_append:
  "addNodesFrom (xs @ ys) g =
     (case addNodesFrom xs g of
        (Inl e, g') \<Rightarrow> (Inl e, g')
      | (Inr _, g') \<Rightarrow> addNodesFrom ys g')"
  by (induction xs arbitrary: g) (auto split: prod.splits sum.splits)

lemma addNode_keeps:
  assumes "hasNode i g" "Map_get i (nodesData g) = Some a"
  shows "hasNode i (snd (addNode ident attr g)) \<and>
         Map_get i (nodesData (snd (addNode ident attr g))) = Some a"
proof -
  consider (same) "snd (addNode ident attr g) = g"
    | (new) r where "Map_get ident (adj g) = None"
        "snd (addNode ident attr g) =
           g\<lparr>adj := Map_set ident [] (adj g), nodesData := Map_set ident r (nodesData g)\<rparr>"
    | (thrown) "Map_get ident (adj g) = None"
        "snd (addNode ident attr g) = g\<lparr>adj := Map_set ident [] (adj g)\<rparr>"
    using addNode_cases [of ident attr g] by fastforce
  then show ?thesis
  proof cases
    case same
    with assms show ?thesis by simp
  next
    case new
    from new(1) assms(1) have "i \<noteq> ident" by (auto simp: hasNode_def Map_has_get)
    with assms show ?thesis unfolding new(2) by (simp add: hasNode_def Map_has_get)
  next
    case thrown
    from thrown(1) assms(1) have "i \<noteq> ident" by (auto simp: hasNode_def Map_has_get)
    with assms show ?thesis unfolding thrown(2) by (simp add: hasNode_def Map_has_get)
  qed
qed

lemma addNode_adds:
  assumes "fst (addNode ident attr g) = Inr ()"
  shows "\<exists>r. attr = Record r \<and> hasNode ident (snd (addNode ident attr g)) \<and>
         Map_get ident (nodesData (snd (addNode ident attr g))) = Some r"
  using addNode_cases [of ident attr g] assms
  by (auto simp: hasNode_def Map_has_get)

lemma addNodesFrom_keeps:
  "hasNode i g \<Longrightarrow> Map_get i (nodesData g) = Some a \<Longrightarrow>
     hasNode i (snd (addNodesFrom xs g)) \<and>
     Map_get i (nodesData (snd (addNodesFrom xs g))) = Some a"
proof (induction xs arbitrary: g)
  case Nil
  then show ?case by simp
next
  case (Cons it xs)
  from addNode_keeps [OF Cons.prems, of "item_id it" "item_arg it"]
  have k: "hasNode i (snd (addNode_item it g))"
    "Map_get i (nodesData (snd (addNode_item it g))) = Some a"
    by (simp_all add: addNode_item_eq)
  show ?case
  proof (cases "addNode_item it g")
    case (Pair r g')
    with k have k': "hasNode i g'" "Map_get i (nodesData g') = Some a" by simp_all
    show ?thesis
    proof (cases r)
      case (Inl e)
      with Pair k' show ?thesis by simp
    next
      case (Inr x)
      with Pair Cons.IH [OF k'] show ?thesis by simp
    qed
  qed
qed

lemma addNodesFrom_added:
  "addNodesFrom xs g = (Inr (), g1) \<Longrightarrow> it \<in> set xs \<Longrightarrow>
     \<exists>r. item_arg it = Record r \<and>
       hasNode (item_id it) g1 \<and> Map_get (item_id it) (nodesData g1) = Some r"
proof (induction xs arbitrary: g)
  case Nil
  then show ?case by simp
next
  case (Cons x xs)
  obtain r g' where step: "addNode_item x g = (r, g')" by (cases "addNode_item x g")
  with Cons.prems(1) have r: "r = Inr ()" and rest: "addNodesFrom xs g' = (Inr (), g1)"
    by (auto split: sum.splits)
  show ?case
  proof (cases "it = x")
    case True
    from step r have "fst (addNode (item_id x) (item_arg x) g) = Inr ()"
      "snd (addNode (item_id x) (item_arg x) g) = g'"
      by (simp_all add: addNode_item_eq)
    with addNode_adds [of "item_id x" "item_arg x" g]
    obtain a where a: "item_arg x = Record a" "hasNode (item_id x) g'"
      "Map_get (item_id x) (nodesData g') = Some a"
      by auto
    from addNodesFrom_keeps [OF a(2,3), of xs] rest a(1) True show ?thesis by simp
  next
    case False
    with Cons.prems(2) have "it \<in> set xs" by simp
    from Cons.IH [OF rest this] show ?thesis .
  qed
qed

text \<open>
  C8. \<open>addNodesFrom\<close> runs \<open>addNode\<close> on the items in order, a bare item with the
  empty record and an array item with its second component (the empty record when it
  has none). When the items \<open>xs\<close> are added and \<open>addNode\<close> throws on the next item
  \<open>bad\<close>, the call throws that error and leaves the state in which \<open>addNode\<close> left
  it, which is the state reached after \<open>xs\<close> when the error is one of the graph's
  own: every item of \<open>xs\<close> is a node with its record, before and after the failing
  \<open>addNode\<close>, and the items \<open>ys\<close> after \<open>bad\<close> play no part.
\<close>

theorem addNodesFrom_sequential:
  "addNodesFrom (xs @ ys) g =
     (case addNodesFrom xs g of
        (Inl e, g') \<Rightarrow> (Inl e, g')
      | (Inr _, g') \<Rightarrow> addNodesFrom ys g') \<and>
   addNodesFrom [Bare ident] g = addNode ident (Record Map.empty) g \<and>
   addNodesFrom [Tuple ident None] g = addNode ident (Record Map.empty) g \<and>
   addNodesFrom [Tuple ident (Some attr)] g = addNode ident attr g \<and>
   (addNodesFrom xs g = (Inr (), g1) \<and> fst (addNode_item bad g1) = Inl e \<longrightarrow>
      addNodesFrom (xs @ bad # ys) g = (Inl e, snd (addNode_item bad g1)) \<and>
      (own_error e \<longrightarrow> addNodesFrom (xs @ bad # ys) g = (Inl e, g1)) \<and>
      (\<forall>it \<in> set xs. \<exists>r. item_arg it = Record r \<and>
         hasNode (item_id it) g1 \<and> node (item_id it) g1 = Inr (Some r) \<and>
         hasNode (item_id it) (snd (addNodesFrom (xs @ bad # ys) g)) \<and>
         node (item_id it) (snd (addNodesFrom (xs @ bad # ys) g)) = Inr (Some r)))"
proof -
  have single: "\<And>it. addNodesFrom [it] g = addNode_item it g"
    by (auto split: prod.splits sum.splits)
  have s1: "addNodesFrom [Bare ident] g = addNode ident (Record Map.empty) g"
    unfolding single by simp
  have s2: "addNodesFrom [Tuple ident None] g = addNode ident (Record Map.empty) g"
    unfolding single by simp
  have s3: "addNodesFrom [Tuple ident (Some attr)] g = addNode ident attr g"
    unfolding single by simp
  have fail: "addNodesFrom xs g = (Inr (), g1) \<and> fst (addNode_item bad g1) = Inl e \<longrightarrow>
      addNodesFrom (xs @ bad # ys) g = (Inl e, snd (addNode_item bad g1)) \<and>
      (own_error e \<longrightarrow> addNodesFrom (xs @ bad # ys) g = (Inl e, g1)) \<and>
      (\<forall>it \<in> set xs. \<exists>r. item_arg it = Record r \<and>
         hasNode (item_id it) g1 \<and> node (item_id it) g1 = Inr (Some r) \<and>
         hasNode (item_id it) (snd (addNodesFrom (xs @ bad # ys) g)) \<and>
         node (item_id it) (snd (addNodesFrom (xs @ bad # ys) g)) = Inr (Some r))"
  proof (intro impI)
    assume a: "addNodesFrom xs g = (Inr (), g1) \<and> fst (addNode_item bad g1) = Inl e"
    then obtain g2 where b: "addNode_item bad g1 = (Inl e, g2)"
      by (cases "addNode_item bad g1") simp
    then have g2: "snd (addNode_item bad g1) = g2" by simp
    from a b have "addNodesFrom (xs @ bad # ys) g = (Inl e, g2)"
      by (simp add: addNodesFrom_append)
    then have 1: "addNodesFrom (xs @ bad # ys) g = (Inl e, snd (addNode_item bad g1))"
      by (simp only: g2)
    have 2: "own_error e \<longrightarrow> addNodesFrom (xs @ bad # ys) g = (Inl e, g1)"
    proof
      assume o: "own_error e"
      from a addNode_fail [of "item_id bad" "item_arg bad" g1 e] o
      have "snd (addNode_item bad g1) = g1"
        by (auto simp: addNode_item_eq own_error_def)
      with 1 show "addNodesFrom (xs @ bad # ys) g = (Inl e, g1)" by simp
    qed
    have 3: "\<forall>it \<in> set xs. \<exists>r. item_arg it = Record r \<and>
         hasNode (item_id it) g1 \<and> node (item_id it) g1 = Inr (Some r) \<and>
         hasNode (item_id it) (snd (addNodesFrom (xs @ bad # ys) g)) \<and>
         node (item_id it) (snd (addNodesFrom (xs @ bad # ys) g)) = Inr (Some r)"
    proof
      fix it assume "it \<in> set xs"
      with a addNodesFrom_added [of xs g g1 it]
      obtain r where h: "item_arg it = Record r" "hasNode (item_id it) g1"
        "Map_get (item_id it) (nodesData g1) = Some r"
        by auto
      from addNode_keeps [OF h(2,3), of "item_id bad" "item_arg bad"]
      have k: "hasNode (item_id it) (snd (addNode_item bad g1))"
        "Map_get (item_id it) (nodesData (snd (addNode_item bad g1))) = Some r"
        by (simp_all add: addNode_item_eq)
      from h k show "\<exists>r. item_arg it = Record r \<and>
         hasNode (item_id it) g1 \<and> node (item_id it) g1 = Inr (Some r) \<and>
         hasNode (item_id it) (snd (addNodesFrom (xs @ bad # ys) g)) \<and>
         node (item_id it) (snd (addNodesFrom (xs @ bad # ys) g)) = Inr (Some r)"
        unfolding 1 by (simp add: node_def hasNode_def)
    qed
    from 1 2 3 show "addNodesFrom (xs @ bad # ys) g = (Inl e, snd (addNode_item bad g1)) \<and>
      (own_error e \<longrightarrow> addNodesFrom (xs @ bad # ys) g = (Inl e, g1)) \<and>
      (\<forall>it \<in> set xs. \<exists>r. item_arg it = Record r \<and>
         hasNode (item_id it) g1 \<and> node (item_id it) g1 = Inr (Some r) \<and>
         hasNode (item_id it) (snd (addNodesFrom (xs @ bad # ys) g)) \<and>
         node (item_id it) (snd (addNodesFrom (xs @ bad # ys) g)) = Inr (Some r))"
      by (intro conjI)
  qed
  from addNodesFrom_append [of xs ys g] s1 s2 s3 fail show ?thesis
    by (intro conjI)
qed

theorem addNodesFrom_sequential_witness:
  "fst (addNodesFrom [Bare (Num 3), Tuple (Str ''B'') (Some (Record [''c'' \<mapsto> 1]))] example_graph) = Inr () \<and>
   fst (addNode_item (Bare (Num 1))
     (snd (addNodesFrom [Bare (Num 3), Tuple (Str ''B'') (Some (Record [''c'' \<mapsto> 1]))] example_graph)))
     = Inl (DuplicateNode (Num 1)) \<and>
   own_error (DuplicateNode (Num 1)) \<and>
   addNodesFrom ([Bare (Num 3), Tuple (Str ''B'') (Some (Record [''c'' \<mapsto> 1]))] @
       Bare (Num 1) # [Bare (Num 9)]) example_graph =
     (Inl (DuplicateNode (Num 1)),
      snd (addNodesFrom [Bare (Num 3), Tuple (Str ''B'') (Some (Record [''c'' \<mapsto> 1]))] example_graph)) \<and>
   hasNode (Num 3)
     (snd (addNodesFrom [Bare (Num 3), Tuple (Str ''B'') (Some (Record [''c'' \<mapsto> 1]))] example_graph)) \<and>
   node (Str ''B'')
     (snd (addNodesFrom [Bare (Num 3), Tuple (Str ''B'') (Some (Record [''c'' \<mapsto> 1]))] example_graph))
     = Inr (Some [''c'' \<mapsto> 1]) \<and>
   \<not> hasNode (Num 9)
     (snd (addNodesFrom [Bare (Num 3), Tuple (Str ''B'') (Some (Record [''c'' \<mapsto> 1]))] example_graph)) \<and>
   \<not> hasNode (Num 3) example_graph"
proof -
  let ?xs = "[Bare (Num 3), Tuple (Str ''B'') (Some (Record [''c'' \<mapsto> (1::int)]))]"
  let ?g1 = "snd (addNodesFrom ?xs example_graph)"
  have g1: "?g1 =
     \<lparr>adj = [(Num 1, [Str ''A'']), (Num 2, []), (Str ''A'', [Num 1]), (Num 3, []), (Str ''B'', [])],
      nodesData = [(Num 1, Map.empty), (Num 2, Map.empty), (Str ''A'', Map.empty),
                   (Num 3, Map.empty), (Str ''B'', [''c'' \<mapsto> 1])],
      edgesData = [(''n:1|s:A'', [''weight'' \<mapsto> 5])]\<rparr>"
    by (simp add: example_graph_eq eval_defs)
  have f: "fst (addNodesFrom ?xs example_graph) = Inr ()"
    by (simp add: example_graph_eq eval_defs)
  then have run: "addNodesFrom ?xs example_graph = (Inr (), ?g1)"
    by (cases "addNodesFrom ?xs example_graph") simp
  have b: "fst (addNode_item (Bare (Num 1)) ?g1) = Inl (DuplicateNode (Num 1))"
    unfolding g1 by (simp add: eval_defs)
  have o: "own_error (DuplicateNode (Num 1))" by (simp add: own_error_def)
  have n: "\<not> hasNode (Num 9) ?g1" "\<not> hasNode (Num 3) example_graph"
    unfolding g1 by (simp_all add: example_graph_eq eval_defs)
  have m: "Bare (Num 3) \<in> set ?xs" "Tuple (Str ''B'') (Some (Record [''c'' \<mapsto> 1])) \<in> set ?xs"
    by simp_all
  note th = addNodesFrom_sequential [of ?xs "[Bare (Num 9)]" example_graph "Num 1"
      "Record Map.empty" ?g1 "Bare (Num 1)" "DuplicateNode (Num 1)"]
  from run b o th
  have t: "addNodesFrom (?xs @ Bare (Num 1) # [Bare (Num 9)]) example_graph =
      (Inl (DuplicateNode (Num 1)), ?g1)"
    by blast
  from run b th
  have t2: "\<forall>it \<in> set ?xs. \<exists>r. item_arg it = Record r \<and>
         hasNode (item_id it) ?g1 \<and> node (item_id it) ?g1 = Inr (Some r)"
    by blast
  from t2 m(1) have h1: "hasNode (Num 3) ?g1" by fastforce
  from t2 m(2) have "\<exists>r. item_arg (Tuple (Str ''B'') (Some (Record [''c'' \<mapsto> (1::int)]))) = Record r \<and>
      node (item_id (Tuple (Str ''B'') (Some (Record [''c'' \<mapsto> (1::int)])))) ?g1 = Inr (Some r)"
    by blast
  then have h2: "node (Str ''B'') ?g1 = Inr (Some [''c'' \<mapsto> 1])"
    by simp
  from f b o t h1 h2 n show ?thesis by blast
qed

section \<open>Canonical keys as strings\<close>

subsection \<open>Printing and reading integers\<close>

lemma digit_cases:
  "d < 10 \<Longrightarrow> d = 0 \<or> d = 1 \<or> d = 2 \<or> d = 3 \<or> d = 4 \<or> d = 5 \<or> d = 6 \<or> d = 7 \<or> d = 8 \<or> d = (9::nat)"
  by arith

lemma digit_char_is_digit: "d < 10 \<Longrightarrow> is_digit (digit_char d)"
  using digit_cases [of d] by (auto simp: digit_char_def is_digit_def)

lemma digit_val_digit_char: "d < 10 \<Longrightarrow> digit_val (digit_char d) = d"
  using digit_cases [of d] by (auto simp: digit_char_def digit_val_def)

lemma is_digit_not_special:
  "is_digit c \<Longrightarrow> c \<noteq> CHR ''|'' \<and> c \<noteq> CHR ''-'' \<and> c \<noteq> CHR ''+''"
  by (auto simp: is_digit_def)

lemma nat_digits_all: "list_all is_digit (nat_digits n)"
proof (induction n rule: nat_digits.induct)
  case (1 n)
  show ?case
  proof (cases "n < 10")
    case True
    then show ?thesis by (simp add: nat_digits.simps [of n] digit_char_is_digit)
  next
    case False
    with 1 show ?thesis by (simp add: nat_digits.simps [of n] digit_char_is_digit)
  qed
qed

lemma nat_digits_nonempty: "nat_digits n \<noteq> []"
  by (simp add: nat_digits.simps [of n])

lemma parse_nat_snoc: "parse_nat (ds @ [c]) = 10 * parse_nat ds + digit_val c"
  by (simp add: parse_nat_def)

lemma parse_nat_digits: "parse_nat (nat_digits n) = n"
proof (induction n rule: nat_digits.induct)
  case (1 n)
  show ?case
  proof (cases "n < 10")
    case True
    then show ?thesis
      by (simp add: nat_digits.simps [of n] parse_nat_def digit_val_digit_char)
  next
    case False
    with 1 have "parse_nat (nat_digits (n div 10)) = n div 10" by simp
    with False show ?thesis
      by (simp add: nat_digits.simps [of n] parse_nat_snoc digit_val_digit_char)
  qed
qed

lemma string_to_int_number_to_string: "string_to_int (number_to_string i) = Some i"
proof (cases "i < 0")
  case True
  then show ?thesis
    by (simp add: number_to_string_def all_digits_def nat_digits_all nat_digits_nonempty
        parse_nat_digits)
next
  case False
  obtain c cs where cs: "nat_digits (nat i) = c # cs"
    using nat_digits_nonempty [of "nat i"] by (cases "nat_digits (nat i)") auto
  with nat_digits_all [of "nat i"] have "is_digit c" by simp
  then have c: "c \<noteq> CHR ''-''" "c \<noteq> CHR ''+''" using is_digit_not_special by blast+
  have "all_digits (c # cs)"
    using nat_digits_all [of "nat i"] cs by (simp add: all_digits_def)
  moreover have "parse_nat (c # cs) = nat i"
    using parse_nat_digits [of "nat i"] cs by simp
  ultimately show ?thesis
    using False c cs by (simp add: number_to_string_def)
qed

lemma number_to_string_inj:
  assumes "number_to_string i = number_to_string j"
  shows "i = j"
proof -
  have "Some i = string_to_int (number_to_string i)"
    by (simp only: string_to_int_number_to_string)
  also have "\<dots> = string_to_int (number_to_string j)"
    by (simp only: assms)
  also have "\<dots> = Some j"
    by (simp only: string_to_int_number_to_string)
  finally show ?thesis by simp
qed

lemma Number_number_to_string:
  "is_safe_integer i \<Longrightarrow> Number other (number_to_string i) = Num i"
  by (simp add: Number_def string_to_int_number_to_string)

lemma bar_free_number_to_string: "bar_free (number_to_string i)"
proof -
  have "\<forall>c \<in> set (nat_digits n). c \<noteq> CHR ''|''" for n
    using nat_digits_all [of n] is_digit_not_special by (auto simp: list_all_iff)
  then show ?thesis by (auto simp: bar_free_def number_to_string_def)
qed

subsection \<open>Tagged identifiers and canonical keys\<close>

lemma typedId_Num: "typedId (Num i) = ''n:'' @ number_to_string i"
  by (simp add: typedId_def)

lemma typedId_other: "typeof x \<noteq> ''number'' \<Longrightarrow> typedId x = ''s:'' @ to_string x"
  by (simp add: typedId_def)

lemma valid_kind_cases: "valid_kind x \<Longrightarrow> (\<exists>i. x = Num i) \<or> (\<exists>s. x = Str s)"
  by (cases x) (simp_all add: valid_kind_def)

lemma typedId_Str: "typedId (Str s) = ''s:'' @ s"
  by (simp add: typedId_def)

lemma typedId_inj:
  assumes "valid_kind x" "valid_kind y" "typedId x = typedId y"
  shows "x = y"
proof -
  from valid_kind_cases [OF assms(1)] valid_kind_cases [OF assms(2)]
  consider i j where "x = Num i" "y = Num j" | i s where "x = Num i" "y = Str s"
    | s i where "x = Str s" "y = Num i" | s t where "x = Str s" "y = Str t"
    by blast
  then show ?thesis
  proof cases
    case 1
    with assms(3) show ?thesis by (auto simp: typedId_Num dest: number_to_string_inj)
  next
    case 2
    with assms(3) show ?thesis by (simp add: typedId_Num typedId_Str)
  next
    case 3
    with assms(3) show ?thesis by (simp add: typedId_Num typedId_Str)
  next
    case 4
    with assms(3) show ?thesis by (simp add: typedId_Str)
  qed
qed

lemma bar_free_typedId_Num: "bar_free (typedId (Num i))"
  using bar_free_number_to_string [of i] by (simp add: typedId_Num bar_free_def)

lemma takeWhile_bar:
  "bar_free p \<Longrightarrow> takeWhile (\<lambda>c. c \<noteq> CHR ''|'') (p @ CHR ''|'' # r) = p"
  by (induction p) (auto simp: bar_free_def)

lemma bar_split_unique:
  assumes "bar_free p" "bar_free q" "p @ ''|'' @ r = q @ ''|'' @ r'"
  shows "p = q \<and> r = r'"
proof -
  have "takeWhile (\<lambda>c. c \<noteq> CHR ''|'') (p @ ''|'' @ r) = p"
    using takeWhile_bar [OF assms(1)] by simp
  moreover have "takeWhile (\<lambda>c. c \<noteq> CHR ''|'') (q @ ''|'' @ r') = q"
    using takeWhile_bar [OF assms(2)] by simp
  ultimately have "p = q" using assms(3) by simp
  with assms(3) show ?thesis by simp
qed

lemma edgeKey_unfold:
  "edgeKey u v =
     (if typedId v < typedId u then typedId v @ ''|'' @ typedId u
      else typedId u @ ''|'' @ typedId v)"
  by (simp add: edgeKey_def sort2_def Let_def)

lemma edgeKey_Num_Str: "edgeKey (Num i) (Str t) = typedId (Num i) @ ''|'' @ typedId (Str t)"
  by (simp add: edgeKey_unfold typedId_Num typedId_Str)

lemma edgeKey_Str_Num: "edgeKey (Str t) (Num i) = typedId (Num i) @ ''|'' @ typedId (Str t)"
  using edgeKey_sym [of "Str t" "Num i"] by (simp only: edgeKey_Num_Str)

lemma edgeKey_Num_Num:
  "edgeKey (Num i) (Num k) = typedId (Num i) @ ''|'' @ typedId (Num k) \<or>
   edgeKey (Num i) (Num k) = typedId (Num k) @ ''|'' @ typedId (Num i)"
  by (simp add: edgeKey_unfold)

lemma edgeKey_Str_Str: "\<exists>c. edgeKey (Str s) (Str t) = CHR ''s'' # c"
  by (simp add: edgeKey_unfold typedId_Str)

lemma edgeKey_from_Num: "valid_kind x \<Longrightarrow> \<exists>c. edgeKey (Num i) x = CHR ''n'' # c"
  using valid_kind_cases [of x] edgeKey_Num_Num [of i]
  by (auto simp: edgeKey_Num_Str typedId_Num)

lemma bar_free_typedId_Num2: "bar_free (''n:'' @ number_to_string i)"
  using bar_free_typedId_Num [of i] by (simp add: typedId_Num)

lemma edgeKey_kinds_apart:
  assumes "valid_kind x" "valid_kind y" "edgeKey (Num i) x = edgeKey (Str s) y"
  shows "x = Str s \<and> y = Num i"
proof -
  from valid_kind_cases [OF assms(2)] show ?thesis
  proof (elim disjE exE)
    fix t assume "y = Str t"
    with edgeKey_Str_Str [of s t] edgeKey_from_Num [OF assms(1), of i] assms(3)
    show ?thesis by auto
  next
    fix j assume y: "y = Num j"
    then have k2: "edgeKey (Str s) y = typedId (Num j) @ ''|'' @ typedId (Str s)"
      by (simp only: edgeKey_Str_Num)
    from valid_kind_cases [OF assms(1)] show ?thesis
    proof (elim disjE exE)
      fix t assume x: "x = Str t"
      then have "edgeKey (Num i) x = typedId (Num i) @ ''|'' @ typedId (Str t)"
        by (simp only: edgeKey_Num_Str)
      with k2 assms(3)
      have "typedId (Num i) @ ''|'' @ typedId (Str t) = typedId (Num j) @ ''|'' @ typedId (Str s)"
        by simp
      from bar_split_unique [OF bar_free_typedId_Num bar_free_typedId_Num this]
      have "typedId (Num i) = typedId (Num j)" "typedId (Str t) = typedId (Str s)"
        by simp_all
      then have "i = j" "t = s"
        by (auto simp: typedId_Num typedId_Str dest: number_to_string_inj)
      with x y show ?thesis by simp
    next
      fix k assume x: "x = Num k"
      from edgeKey_Num_Num [of i k] x k2 assms(3)
      consider "typedId (Num i) @ ''|'' @ typedId (Num k) = typedId (Num j) @ ''|'' @ typedId (Str s)"
        | "typedId (Num k) @ ''|'' @ typedId (Num i) = typedId (Num j) @ ''|'' @ typedId (Str s)"
        by auto
      then show ?thesis
      proof cases
        case 1
        from bar_split_unique [OF bar_free_typedId_Num bar_free_typedId_Num this]
        have "typedId (Num k) = typedId (Str s)" by simp
        then show ?thesis by (simp add: typedId_Num typedId_Str)
      next
        case 2
        from bar_split_unique [OF bar_free_typedId_Num bar_free_typedId_Num this]
        have "typedId (Num i) = typedId (Str s)" by simp
        then show ?thesis by (simp add: typedId_Num typedId_Str)
      qed
    qed
  qed
qed

lemma addNode_succeeds:
  "valid_kind ident \<Longrightarrow> \<not> hasNode ident g \<Longrightarrow> fst (addNode ident (Record a) g) = Inr ()"
  by (simp add: addNode_def hasNode_def checkValidId_iff [THEN iffD2] valid_kind_accepted
      spread_def Let_def)

lemma addNode_count:
  assumes "fst (addNode ident attr g) = Inr ()"
  shows "numberOfNodes (snd (addNode ident attr g)) = numberOfNodes g + 1"
proof -
  from addNode_cases [of ident attr g] assms
  obtain a where fresh: "Map_get ident (adj g) = None"
    and post: "addNode ident attr g =
        (Inr (), g\<lparr>adj := Map_set ident [] (adj g),
                     nodesData := Map_set ident a (nodesData g)\<rparr>)"
    by auto
  have "length (map fst (Map_set ident [] (adj g))) = length (map fst (adj g) @ [ident])"
    by (simp only: keys_Map_set_new [OF fresh])
  then show ?thesis unfolding post by (simp add: numberOfNodes_def)
qed

lemma addNode_other:
  "i \<noteq> ident \<Longrightarrow> hasNode i (snd (addNode ident attr g)) = hasNode i g"
  using addNode_cases [of ident attr g] by (auto simp: hasNode_def Map_has_get)

text \<open>
  C7. A number and a string never collide, whatever they spell (in particular the
  string that spells the number): both can be added and are two nodes, each with its
  own record; their tagged forms differ; and an edge at the number and an edge at the
  string have the same canonical key only when both are the one edge that joins the
  number and the string, so edges from the two nodes to a common node have different
  keys.
\<close>

theorem kinds_never_collide:
  "(\<not> hasNode (Num i) g \<and> \<not> hasNode (Str s) g \<longrightarrow>
      fst (addNode (Num i) (Record a) g) = Inr () \<and>
      fst (addNode (Str s) (Record b) (snd (addNode (Num i) (Record a) g))) = Inr () \<and>
      hasNode (Num i) (snd (addNode (Str s) (Record b) (snd (addNode (Num i) (Record a) g)))) \<and>
      hasNode (Str s) (snd (addNode (Str s) (Record b) (snd (addNode (Num i) (Record a) g)))) \<and>
      node (Num i) (snd (addNode (Str s) (Record b) (snd (addNode (Num i) (Record a) g)))) = Inr (Some a) \<and>
      node (Str s) (snd (addNode (Str s) (Record b) (snd (addNode (Num i) (Record a) g)))) = Inr (Some b) \<and>
      numberOfNodes (snd (addNode (Str s) (Record b) (snd (addNode (Num i) (Record a) g)))) = numberOfNodes g + 2) \<and>
   typedId (Num i) \<noteq> typedId (Str s) \<and>
   (valid_kind x \<and> valid_kind y \<and> edgeKey (Num i) x = edgeKey (Str s) y \<longrightarrow>
      x = Str s \<and> y = Num i) \<and>
   (valid_kind x \<longrightarrow> edgeKey (Num i) x \<noteq> edgeKey (Str s) x)"
proof -
  let ?g1 = "snd (addNode (Num i) (Record a) g)"
  let ?g2 = "snd (addNode (Str s) (Record b) ?g1)"
  have nodes: "fst (addNode (Num i) (Record a) g) = Inr () \<and>
      fst (addNode (Str s) (Record b) ?g1) = Inr () \<and>
      hasNode (Num i) ?g2 \<and> hasNode (Str s) ?g2 \<and>
      node (Num i) ?g2 = Inr (Some a) \<and> node (Str s) ?g2 = Inr (Some b) \<and>
      numberOfNodes ?g2 = numberOfNodes g + 2"
    if h: "\<not> hasNode (Num i) g \<and> \<not> hasNode (Str s) g"
  proof -
    have k: "valid_kind (Num i)" "valid_kind (Str s)" by (simp_all add: valid_kind_def)
    have ok1: "fst (addNode (Num i) (Record a) g) = Inr ()"
      using h k by (simp add: addNode_succeeds)
    have "\<not> hasNode (Str s) ?g1"
      using h addNode_other [of "Str s" "Num i" "Record a" g] by simp
    then have ok2: "fst (addNode (Str s) (Record b) ?g1) = Inr ()"
      using k by (simp add: addNode_succeeds)
    note a1 = addNode_adds [OF ok1]
    note a2 = addNode_adds [OF ok2]
    from addNode_keeps [of "Num i" ?g1 a "Str s" "Record b"] a1
    have k1: "hasNode (Num i) ?g2" "Map_get (Num i) (nodesData ?g2) = Some a"
      by simp_all
    have n1: "node (Num i) ?g2 = Inr (Some a)"
      using k1 by (simp add: node_def hasNode_def)
    have n2: "node (Str s) ?g2 = Inr (Some b)"
      using a2 by (simp add: node_def hasNode_def)
    have c: "numberOfNodes ?g2 = numberOfNodes g + 2"
      using addNode_count [OF ok1] addNode_count [OF ok2] by simp
    from ok1 ok2 k1(1) a2 n1 n2 c show ?thesis by simp
  qed
  have t: "typedId (Num i) \<noteq> typedId (Str s)"
    by (simp add: typedId_Num typedId_Str)
  have apart: "valid_kind x \<and> valid_kind y \<and> edgeKey (Num i) x = edgeKey (Str s) y \<longrightarrow>
      x = Str s \<and> y = Num i"
    using edgeKey_kinds_apart [of x y i s] by blast
  have same: "valid_kind x \<longrightarrow> edgeKey (Num i) x \<noteq> edgeKey (Str s) x"
    using edgeKey_kinds_apart [of x x i s] by auto
  from nodes t apart same show ?thesis by blast
qed

theorem kinds_never_collide_witness:
  "\<not> hasNode (Num 1) (new_Graph :: int graph) \<and> \<not> hasNode (Str ''1'') (new_Graph :: int graph) \<and>
   fst (addNode (Num 1) (Record Map.empty) (new_Graph :: int graph)) = Inr () \<and>
   fst (addNode (Str ''1'') (Record Map.empty) (snd (addNode (Num 1) (Record Map.empty) (new_Graph :: int graph))))
     = Inr () \<and>
   hasNode (Num 1)
     (snd (addNode (Str ''1'') (Record Map.empty) (snd (addNode (Num 1) (Record Map.empty) (new_Graph :: int graph))))) \<and>
   hasNode (Str ''1'')
     (snd (addNode (Str ''1'') (Record Map.empty) (snd (addNode (Num 1) (Record Map.empty) (new_Graph :: int graph))))) \<and>
   numberOfNodes
     (snd (addNode (Str ''1'') (Record Map.empty) (snd (addNode (Num 1) (Record Map.empty) (new_Graph :: int graph)))))
     = numberOfNodes (new_Graph :: int graph) + 2 \<and>
   typedId (Num 1) \<noteq> typedId (Str ''1'') \<and>
   valid_kind (Num 2) \<and> valid_kind (Str ''1'') \<and> valid_kind (Num 1) \<and>
   edgeKey (Num 1) (Str ''1'') = edgeKey (Str ''1'') (Num 1) \<and>
   edgeKey (Num 1) (Num 2) \<noteq> edgeKey (Str ''1'') (Num 2) \<and>
   edge (Num 1) (Num 2) kinds_graph = Inr (Some [''n'' \<mapsto> 1]) \<and>
   edge (Str ''1'') (Num 2) kinds_graph = Inr (Some [''t'' \<mapsto> 2])"
proof -
  let ?g = "new_Graph :: int graph"
  have h: "\<not> hasNode (Num 1) ?g" "\<not> hasNode (Str ''1'') ?g"
    by (simp_all add: eval_defs)
  have k: "valid_kind (Num 2)" "valid_kind (Str ''1'')" "valid_kind (Num 1)"
    by (simp_all add: valid_kind_def)
  have e: "edgeKey (Num 1) (Str ''1'') = edgeKey (Str ''1'') (Num 1)"
    by (simp add: eval_defs)
  have l: "edge (Num 1) (Num 2) kinds_graph = Inr (Some [''n'' \<mapsto> 1])"
    "edge (Str ''1'') (Num 2) kinds_graph = Inr (Some [''t'' \<mapsto> 2])"
    by (simp_all add: kinds_graph_def eval_defs)
  note t = kinds_never_collide [of 1 ?g "''1''" Map.empty Map.empty "Num 2" "Num 1"]
  from h t have 1: "fst (addNode (Num 1) (Record Map.empty) ?g) = Inr ()"
    "fst (addNode (Str ''1'') (Record Map.empty) (snd (addNode (Num 1) (Record Map.empty) ?g))) = Inr ()"
    "hasNode (Num 1) (snd (addNode (Str ''1'') (Record Map.empty) (snd (addNode (Num 1) (Record Map.empty) ?g))))"
    "hasNode (Str ''1'') (snd (addNode (Str ''1'') (Record Map.empty) (snd (addNode (Num 1) (Record Map.empty) ?g))))"
    "numberOfNodes (snd (addNode (Str ''1'') (Record Map.empty) (snd (addNode (Num 1) (Record Map.empty) ?g))))
       = numberOfNodes ?g + 2"
    by blast+
  from k t have 2: "typedId (Num 1) \<noteq> typedId (Str ''1'')"
    "edgeKey (Num 1) (Num 2) \<noteq> edgeKey (Str ''1'') (Num 2)"
    by blast+
  from h k e l 1 2 show ?thesis by blast
qed

section \<open>Listing the edges\<close>

lemma edges_loop_length: "edges_loop other m = Inr es \<Longrightarrow> length es = length m"
proof (induction m arbitrary: es)
  case Nil
  then show ?case by simp
next
  case (Cons e m)
  obtain key attr where e: "e = (key, attr)" by (cases e)
  from Cons.prems e obtain rest where "edges_loop other m = Inr rest" "length es = Suc (length rest)"
    by (auto split: list.splits sum.splits)
  with Cons.IH show ?case by simp
qed

lemma edges_length: "edges other g = Inr es \<Longrightarrow> length es = numberOfEdges g"
  by (simp add: edges_def numberOfEdges_def edges_loop_length)

lemmas edges_eval_defs =
  edges_def numberOfEdges_def untyped_def startsWith_def slice_def Number_def

lemma bar_graph_eq:
  "bar_graph =
     \<lparr>adj = [(Str ''a|b'', [Str ''c'']), (Str ''c'', [Str ''a|b''])],
      nodesData = [(Str ''a|b'', Map.empty), (Str ''c'', Map.empty)],
      edgesData = [(''s:a|b|s:c'', [''w'' \<mapsto> 1])]\<rparr>"
  by (simp add: bar_graph_def eval_defs)

lemma clash_graph_eq:
  "clash_graph =
     \<lparr>adj = [(Str ''a|s:b'', [Str ''c'']), (Str ''c'', [Str ''a|s:b'']),
             (Str ''a'', [Str ''b|s:c'']), (Str ''b|s:c'', [Str ''a''])],
      nodesData = [(Str ''a|s:b'', Map.empty), (Str ''c'', Map.empty),
                   (Str ''a'', Map.empty), (Str ''b|s:c'', Map.empty)],
      edgesData = [(''s:a|s:b|s:c'', [''x'' \<mapsto> 1, ''y'' \<mapsto> 2])]\<rparr>"
  by (simp add: clash_graph_def clash_start_eq eval_defs)

text \<open>
  C1. \<open>numberOfEdges\<close> is the length of \<open>edges\<close> in every state (\<open>edges_length\<close>),
  but the endpoints that \<open>edges\<close> rebuilds are not those of the stored edge when an
  identifier contains the bar that separates the two halves of the canonical key. With
  the nodes \<open>"a|b"\<close> and \<open>"c"\<close> joined by one edge, the key is \<open>s:a|b|s:c\<close>,
  \<open>edges\<close> returns the single triple \<open>("a", "", attr)\<close>, neither endpoint is a node,
  and \<open>edge "a" ""\<close> throws, while the stored edge still answers to its real endpoints.
  When no node identifier contains the bar, every triple of \<open>edges\<close> does read back
  with \<open>edge\<close> (\<open>edges_roundtrip_bar_free\<close> below).
\<close>

theorem edges_roundtrip_breaks_on_bar:
  "hasNode (Str ''a|b'') bar_graph \<and> hasNode (Str ''c'') bar_graph \<and>
   hasEdge (Str ''a|b'') (Str ''c'') bar_graph = Inr True \<and>
   edge (Str ''a|b'') (Str ''c'') bar_graph = Inr (Some [''w'' \<mapsto> 1]) \<and>
   numberOfEdges bar_graph = 1 \<and>
   edges other bar_graph = Inr [(Str ''a'', Str '''', [''w'' \<mapsto> 1])] \<and>
   hasNode (Str ''a'') bar_graph = False \<and> hasNode (Str '''') bar_graph = False \<and>
   edge (Str ''a'') (Str '''') bar_graph = Inl (EdgeNotFound (Str ''a'') (Str ''''))"
  by (simp add: bar_graph_eq eval_defs edges_eval_defs)

lemma clash_graph_shares_record:
  "hasEdge (Str ''a|s:b'') (Str ''c'') clash_graph = Inr True \<and>
   hasEdge (Str ''a'') (Str ''b|s:c'') clash_graph = Inr True \<and>
   edgeKey (Str ''a|s:b'') (Str ''c'') = edgeKey (Str ''a'') (Str ''b|s:c'') \<and>
   numberOfEdges clash_graph = 1 \<and>
   edge (Str ''a|s:b'') (Str ''c'') clash_graph = Inr (Some [''x'' \<mapsto> 1, ''y'' \<mapsto> 2]) \<and>
   edges other clash_graph = Inr [(Str ''a'', Str ''b'', [''x'' \<mapsto> 1, ''y'' \<mapsto> 2])]"
  by (simp add: clash_graph_eq eval_defs edges_eval_defs)

subsection \<open>The keys of the edge store are distinct\<close>

lemma addNodesFrom_edgesData: "edgesData (snd (addNodesFrom xs g)) = edgesData g"
proof (induction xs arbitrary: g)
  case Nil
  show ?case by simp
next
  case (Cons it xs)
  have e: "edgesData (snd (addNode_item it g)) = edgesData g"
    using addNode_cases [of "item_id it" "item_arg it" g] by (auto simp: addNode_item_eq)
  show ?case
  proof (cases "addNode_item it g")
    case (Pair r g')
    with e have e': "edgesData g' = edgesData g" by simp
    show ?thesis
    proof (cases r)
      case (Inl err)
      with Pair e' show ?thesis by simp
    next
      case (Inr x)
      with Pair Cons.IH [of g'] e' show ?thesis by simp
    qed
  qed
qed

lemma addEdge_edgesData:
  "edgesData (snd (addEdge u v attr g)) = edgesData g \<or>
   (\<exists>r. edgesData (snd (addEdge u v attr g)) = Map_set (edgeKey u v) r (edgesData g))"
proof (cases "Map_get (edgeKey u v) (edgesData g)")
  case None
  with addEdge_cases [of u v attr g] show ?thesis
    by (cases attr) auto
next
  case (Some old)
  with addEdge_cases [of u v attr g] show ?thesis
    by auto
qed

lemma reachable_distinct_edge_keys: "reachable g \<Longrightarrow> distinct (map fst (edgesData g))"
proof (induction rule: reachable.induct)
  case r_new
  show ?case by (simp add: new_Graph_def)
next
  case (r_addNode g ident attr)
  then show ?case using addNode_cases [of ident attr g] by auto
next
  case (r_addNodesFrom g items)
  then show ?case by (simp add: addNodesFrom_edgesData)
next
  case (r_removeNode g ident)
  from removeNode_cases [OF reachable_consistent [OF r_removeNode.hyps], of ident]
  show ?case using r_removeNode.IH by (auto simp: distinct_map_filter)
next
  case (r_addEdge g u v attr)
  from addEdge_edgesData [of u v attr g] r_addEdge.IH show ?case
    by (auto simp: distinct_Map_set)
next
  case (r_removeEdge g u v)
  from removeEdge_cases [OF reachable_consistent [OF r_removeEdge.hyps], of u v]
  show ?case using r_removeEdge.IH by (auto simp: distinct_Map_delete)
qed

subsection \<open>Reading a canonical key back\<close>

lemma split_bar_free: "bar_free r \<Longrightarrow> split CHR ''|'' r = [r]"
  by (induction r) (auto simp: bar_free_def)

lemma split_at_bar:
  "bar_free p \<Longrightarrow> split CHR ''|'' (p @ CHR ''|'' # r) = p # split CHR ''|'' r"
  by (induction p) (auto simp: bar_free_def)

lemma split_key:
  "bar_free p \<Longrightarrow> bar_free q \<Longrightarrow> split CHR ''|'' (p @ ''|'' @ q) = [p, q]"
  by (simp add: split_at_bar split_bar_free)

lemma untyped_typedId:
  assumes "number_or_string x" "safe_id x"
  shows "untyped other (typedId x) = x"
proof -
  from number_or_string_cases [OF assms(1)]
  consider i where "x = Num i" | "x = NaN" | "x = Infinity" | "x = NegInfinity"
    | s where "x = Str s"
    by blast
  then show ?thesis
  proof cases
    case 1
    with assms(2) have "is_safe_integer i" by (simp add: safe_id_def)
    with 1 show ?thesis
      by (simp add: untyped_def startsWith_def slice_def typedId_Num Number_number_to_string)
  next
    case 2
    then show ?thesis
      by (simp add: untyped_def startsWith_def slice_def typedId_def Number_def
          all_digits_def is_digit_def)
  next
    case 3
    then show ?thesis
      by (simp add: untyped_def startsWith_def slice_def typedId_def Number_def
          all_digits_def is_digit_def)
  next
    case 4
    then show ?thesis
      by (simp add: untyped_def startsWith_def slice_def typedId_def Number_def
          all_digits_def is_digit_def)
  next
    case 5
    then show ?thesis
      by (simp add: untyped_def startsWith_def slice_def typedId_Str)
  qed
qed

lemma split_edgeKey:
  assumes "bar_free (typedId u)" "bar_free (typedId v)"
  shows "split CHR ''|'' (edgeKey u v) = [typedId u, typedId v] \<or>
         split CHR ''|'' (edgeKey u v) = [typedId v, typedId u]"
  using split_key [OF assms] split_key [OF assms(2,1)] by (simp add: edgeKey_unfold)

lemma edges_loop_reads_back:
  assumes "\<forall>(k, a) \<in> set m. \<exists>u v. k = edgeKey u v \<and> number_or_string u \<and> number_or_string v \<and> safe_id u \<and> safe_id v \<and>
      bar_free (typedId u) \<and> bar_free (typedId v) \<and>
      hasEdge u v g = Inr True \<and> hasEdge v u g = Inr True \<and>
      Map_get k (edgesData g) = Some a"
  shows "\<exists>es. edges_loop other m = Inr es \<and>
      (\<forall>(u', v', a) \<in> set es. edge u' v' g = Inr (Some a))"
  using assms
proof (induction m)
  case Nil
  show ?case by simp
next
  case (Cons e m)
  obtain k a where e: "e = (k, a)" by (cases e)
  from Cons.prems e obtain u v where uv: "k = edgeKey u v" "number_or_string u" "number_or_string v"
    "safe_id u" "safe_id v" "bar_free (typedId u)" "bar_free (typedId v)"
    "hasEdge u v g = Inr True" "hasEdge v u g = Inr True"
    "Map_get k (edgesData g) = Some a"
    by auto
  from Cons.IH Cons.prems obtain es where es: "edges_loop other m = Inr es"
    "\<forall>(u', v', a) \<in> set es. edge u' v' g = Inr (Some a)"
    by auto
  have e1: "edge u v g = Inr (Some a)"
    using uv by (simp add: edge_of_hasEdge)
  have e2: "edge v u g = Inr (Some a)"
    using uv edgeKey_sym [of v u] by (simp add: edge_of_hasEdge)
  from split_edgeKey [OF uv(6,7)] show ?case
  proof
    assume "split CHR ''|'' (edgeKey u v) = [typedId u, typedId v]"
    then have "edges_loop other (e # m) = Inr ((u, v, a) # es)"
      using e uv(1,2,3,4,5) es(1) by (simp add: untyped_typedId)
    with es(2) e1 show ?thesis by simp
  next
    assume "split CHR ''|'' (edgeKey u v) = [typedId v, typedId u]"
    then have "edges_loop other (e # m) = Inr ((v, u, a) # es)"
      using e uv(1,2,3,4,5) es(1) by (simp add: untyped_typedId)
    with es(2) e2 show ?thesis by simp
  qed
qed

lemma edges_roundtrip_bar_free:
  assumes "reachable g" "\<forall>k \<in> set (nodes g). bar_free (typedId k) \<and> safe_id k"
  shows "\<exists>es. edges other g = Inr es \<and> length es = numberOfEdges g \<and>
      (\<forall>(u, v, attr) \<in> set es. edge u v g = Inr (Some attr))"
proof -
  note c = reachable_consistent [OF assms(1)]
  note d = reachable_distinct_edge_keys [OF assms(1)]
  have node_ok: "number_or_string x \<and> safe_id x \<and> bar_free (typedId x)" if "Map_get x (adj g) = Some s" for x s
  proof -
    from that have "hasNode x g" by (simp add: hasNode_def Map_has_get)
    moreover from that have "x \<in> set (nodes g)"
      using Map_get_keys [of x "adj g" s] by (simp add: nodes_def Map_keys_def)
    ultimately show ?thesis
      using assms reachable_hasNode_valid [of g x] by blast
  qed
  have "\<forall>(k, a) \<in> set (edgesData g). \<exists>u v. k = edgeKey u v \<and> number_or_string u \<and> number_or_string v \<and> safe_id u \<and> safe_id v \<and>
      bar_free (typedId u) \<and> bar_free (typedId v) \<and>
      hasEdge u v g = Inr True \<and> hasEdge v u g = Inr True \<and>
      Map_get k (edgesData g) = Some a"
  proof (clarify)
    fix k a assume ka: "(k, a) \<in> set (edgesData g)"
    then have get: "Map_get k (edgesData g) = Some a"
      using d by (simp add: Map_in_set)
    then have "Map_has k (edgesData g)" by (simp add: Map_has_get)
    from consistentD_edges [OF c this] obtain u s v where
      w: "Map_get u (adj g) = Some s" "v \<in> set s" "k = edgeKey u v" by blast
    from consistentD_adj [OF c w(1,2)] obtain t where
      t: "Map_get v (adj g) = Some t" "u \<in> set t" by blast
    have "hasEdge u v g = Inr True" "hasEdge v u g = Inr True"
      using w t by (simp_all add: hasEdge_def Map_has_get Set_has_def)
    with node_ok [OF w(1)] node_ok [OF t(1)] w(3) get
    show "\<exists>u v. k = edgeKey u v \<and> number_or_string u \<and> number_or_string v \<and> safe_id u \<and> safe_id v \<and>
      bar_free (typedId u) \<and> bar_free (typedId v) \<and>
      hasEdge u v g = Inr True \<and> hasEdge v u g = Inr True \<and>
      Map_get k (edgesData g) = Some a"
      by blast
  qed
  from edges_loop_reads_back [OF this, of other] obtain es where
    es: "edges other g = Inr es" "\<forall>(u, v, attr) \<in> set es. edge u v g = Inr (Some attr)"
    by (auto simp: edges_def)
  with edges_length [OF es(1)] show ?thesis by blast
qed

subsection \<open>A pair that is not joined has no record when no identifier contains the bar\<close>

lemma typedId_inj_safe:
  assumes "number_or_string x" "safe_id x" "number_or_string y" "safe_id y"
    "typedId x = typedId y"
  shows "x = y"
proof -
  have "x = untyped (\<lambda>s. Undefined) (typedId x)"
    using untyped_typedId [OF assms(1,2)] by simp
  also have "\<dots> = untyped (\<lambda>s. Undefined) (typedId y)" by (simp only: assms(5))
  also have "\<dots> = y" using untyped_typedId [OF assms(3,4)] by simp
  finally show ?thesis .
qed

lemma edgeKey_inj_bar_free:
  assumes "number_or_string u" "safe_id u" "bar_free (typedId u)"
    "number_or_string v" "safe_id v" "bar_free (typedId v)"
    "number_or_string u'" "safe_id u'" "bar_free (typedId u')"
    "number_or_string v'" "safe_id v'" "bar_free (typedId v')"
    "edgeKey u v = edgeKey u' v'"
  shows "(u = u' \<and> v = v') \<or> (u = v' \<and> v = u')"
proof -
  from split_edgeKey [OF assms(3,6)] split_edgeKey [OF assms(9,12)] assms(13)
  have "(typedId u = typedId u' \<and> typedId v = typedId v') \<or>
        (typedId u = typedId v' \<and> typedId v = typedId u')"
    by auto
  then show ?thesis
  proof
    assume "typedId u = typedId u' \<and> typedId v = typedId v'"
    with typedId_inj_safe [OF assms(1,2,7,8)] typedId_inj_safe [OF assms(4,5,10,11)]
    show ?thesis by simp
  next
    assume "typedId u = typedId v' \<and> typedId v = typedId u'"
    with typedId_inj_safe [OF assms(1,2,10,11)] typedId_inj_safe [OF assms(4,5,7,8)]
    show ?thesis by simp
  qed
qed

lemma no_edge_no_record:
  assumes "reachable g" "\<forall>k \<in> set (nodes g). bar_free (typedId k) \<and> safe_id k"
    "hasNode u g" "hasNode v g" "hasEdge u v g = Inr False"
  shows "Map_get (edgeKey u v) (edgesData g) = None"
proof (rule ccontr)
  assume "Map_get (edgeKey u v) (edgesData g) \<noteq> None"
  then have has: "Map_has (edgeKey u v) (edgesData g)" by (auto simp: Map_has_get)
  note c = reachable_consistent [OF assms(1)]
  have node_ok: "number_or_string x \<and> safe_id x \<and> bar_free (typedId x)" if "hasNode x g" for x
  proof -
    from that have "x \<in> set (nodes g)"
      by (simp add: hasNode_def nodes_def Map_has_keys)
    with assms(1,2) that reachable_hasNode_valid [of g x] show ?thesis by blast
  qed
  from consistentD_edges [OF c has] obtain u' s v' where
    w: "Map_get u' (adj g) = Some s" "v' \<in> set s" "edgeKey u v = edgeKey u' v'" by blast
  from consistentD_adj [OF c w(1,2)] obtain t where
    t: "Map_get v' (adj g) = Some t" "u' \<in> set t" by blast
  have n: "hasNode u' g" "hasNode v' g"
    using w(1) t(1) by (simp_all add: hasNode_def Map_has_get)
  have e: "hasEdge u' v' g = Inr True" "hasEdge v' u' g = Inr True"
    using w t by (simp_all add: hasEdge_def Map_has_get Set_has_def)
  from node_ok [OF assms(3)] node_ok [OF assms(4)] node_ok [OF n(1)] node_ok [OF n(2)] w(3)
  have "(u = u' \<and> v = v') \<or> (u = v' \<and> v = u')"
    by (intro edgeKey_inj_bar_free) simp_all
  with e assms(5) show False by auto
qed

text \<open>
  When no node identifier contains the bar (nor is an integer beyond the safe ones),
  a pair of existing nodes that is not joined has no record, its first declaration
  stores the fields of \<^verbatim>\<open>attr\<close>, and declaring it with \<open>{x: i}\<close> and again with
  \<open>{y: j}\<close> leaves \<open>{x: i, y: j}\<close>.
\<close>

lemma addEdge_merge_bar_free:
  assumes "reachable g" "\<forall>k \<in> set (nodes g). bar_free (typedId k) \<and> safe_id k"
    "hasNode u g" "hasNode v g" "hasEdge u v g = Inr False" "y \<noteq> ''__proto__''"
  shows "edge u v (snd (addEdge u v (Record a) g)) = Inr (Some a)"
    and "edge u v (snd (addEdge u v (Record [y \<mapsto> j])
            (snd (addEdge u v (Record [x \<mapsto> i]) g)))) = Inr (Some [x \<mapsto> i, y \<mapsto> j])"
proof -
  note none = no_edge_no_record [OF assms(1-5)]
  from addEdge_record_under_key(1) [OF assms(1,3,4) none]
  show "edge u v (snd (addEdge u v (Record a) g)) = Inr (Some a)" .
  from addEdge_twice_under_free_key [OF assms(1,3,4) none assms(6)]
  show "edge u v (snd (addEdge u v (Record [y \<mapsto> j])
            (snd (addEdge u v (Record [x \<mapsto> i]) g)))) = Inr (Some [x \<mapsto> i, y \<mapsto> j])" .
qed

end
